theory Spec2Isabelle
  imports Complex_Main "HOL-Library.Multiset"
begin

section \<open>Facelet state\<close>

text \<open>
  A cube state is the flattened array of 54 labels of \<^verbatim>\<open>RubikCube.state\<close>: face \<open>k\<close>
  occupies the indices \<open>9 * k ..< 9 * k + 9\<close>, row-major (0 Front, 1 Right, 2 Back,
  3 Left, 4 Up, 5 Down). Labels are Python integers.
\<close>

type_synonym label = int
type_synonym state = "label list"

datatype error = InvalidStateSize | InvalidFaceIndex | InvalidFaceShape
  | InvalidMove | UnknownHeuristic | InvalidSeed

text \<open>\<^verbatim>\<open>RubikCube._create_solved_state\<close>: \<open>state[face * 9 + square] = face\<close>.\<close>

definition create_solved_state :: state where
  "create_solved_state = concat (map (\<lambda>face. map (\<lambda>square. int face) [0..<9]) [0..<6])"

section \<open>Move engine\<close>

text \<open>
  The 18 keys of \<^verbatim>\<open>MoveEngine.moves\<close>: a face letter, alone (clockwise quarter turn),
  followed by \<^verbatim>\<open>'\<close> (counterclockwise quarter turn) or by \<^verbatim>\<open>2\<close> (half turn).
  \<open>fst\<close> of a move is the source's \<^verbatim>\<open>move[0]\<close>.
\<close>

datatype face = U | D | L | R | F | B
datatype turn = CW | CCW | Half
type_synonym move = "face \<times> turn"

definition face_letter :: "face \<Rightarrow> char" where
  "face_letter f = (case f of U \<Rightarrow> CHR ''U'' | D \<Rightarrow> CHR ''D'' | L \<Rightarrow> CHR ''L''
     | R \<Rightarrow> CHR ''R'' | F \<Rightarrow> CHR ''F'' | B \<Rightarrow> CHR ''B'')"

definition move_name :: "move \<Rightarrow> string" where
  "move_name m = (case snd m of CW \<Rightarrow> [face_letter (fst m)]
     | CCW \<Rightarrow> [face_letter (fst m), CHR 0x27]
     | Half \<Rightarrow> [face_letter (fst m), CHR ''2''])"

text \<open>\<^verbatim>\<open>get_all_moves\<close>: the keys of the dispatch table, in insertion order.\<close>

definition get_all_moves :: "move list" where
  "get_all_moves =
     [(U, CW), (U, CCW), (U, Half), (D, CW), (D, CCW), (D, Half),
      (L, CW), (L, CCW), (L, Half), (R, CW), (R, CCW), (R, Half),
      (F, CW), (F, CCW), (F, Half), (B, CW), (B, CCW), (B, Half)]"

definition parse_move :: "string \<Rightarrow> move option" where
  "parse_move name = find (\<lambda>m. move_name m = name) get_all_moves"

definition is_valid_move :: "string \<Rightarrow> bool" where
  "is_valid_move name = (parse_move name \<noteq> None)"

subsection \<open>Array primitives\<close>

text \<open>
  \<open>slice s a b\<close> is \<^verbatim>\<open>s[a:b]\<close>; \<open>set_slice s a vs\<close> is \<^verbatim>\<open>s[a:a+len(vs)] = vs\<close>;
  \<open>get_idx\<close> and \<open>set_idx\<close> are the reads and writes through an index list
  (\<^verbatim>\<open>state[[0, 3, 6]] = [...]\<close> and the tuple assignments of the F moves: the right-hand
  side is read completely before the first write).
\<close>

definition slice :: "'a list \<Rightarrow> nat \<Rightarrow> nat \<Rightarrow> 'a list" where
  "slice s a b = take (b - a) (drop a s)"

definition set_slice :: "'a list \<Rightarrow> nat \<Rightarrow> 'a list \<Rightarrow> 'a list" where
  "set_slice s a vs = take a s @ vs @ drop (a + length vs) s"

definition get_idx :: "'a list \<Rightarrow> nat list \<Rightarrow> 'a list" where
  "get_idx s idxs = map (\<lambda>i. s ! i) idxs"

fun set_idx :: "'a list \<Rightarrow> nat list \<Rightarrow> 'a list \<Rightarrow> 'a list" where
  "set_idx s (i # idxs) (v # vs) = set_idx (s[i := v]) idxs vs"
| "set_idx s _ _ = s"

text \<open>
  \<^verbatim>\<open>np.rot90(face, -1).flatten()\<close> and \<^verbatim>\<open>np.rot90(face, 1).flatten()\<close> on a 3x3 grid given
  row-major: the clockwise result has \<open>face[2 - j][i]\<close> at row \<open>i\<close>, column \<open>j\<close>, the
  counterclockwise one \<open>face[j][2 - i]\<close>.
\<close>

definition rot90_cw :: "'a list \<Rightarrow> 'a list" where
  "rot90_cw face = map (\<lambda>(i, j). face ! (3 * (2 - j) + i)) (List.product [0..<3] [0..<3])"

definition rot90_ccw :: "'a list \<Rightarrow> 'a list" where
  "rot90_ccw face = map (\<lambda>(i, j). face ! (3 * j + (2 - i))) (List.product [0..<3] [0..<3])"

definition rotate_face_clockwise :: "'a list \<Rightarrow> nat \<Rightarrow> 'a list" where
  "rotate_face_clockwise s face_idx =
     (let face_start = face_idx * 9
      in set_slice s face_start (rot90_cw (slice s face_start (face_start + 9))))"

definition rotate_face_counterclockwise :: "'a list \<Rightarrow> nat \<Rightarrow> 'a list" where
  "rotate_face_counterclockwise s face_idx =
     (let face_start = face_idx * 9
      in set_slice s face_start (rot90_ccw (slice s face_start (face_start + 9))))"

subsection \<open>The quarter turns\<close>

definition move_U :: "'a list \<Rightarrow> 'a list" where
  "move_U s0 =
     (let s = rotate_face_clockwise s0 4;
          temp = slice s 0 3;
          s = set_slice s 0 (slice s 27 30);
          s = set_slice s 27 (slice s 18 21);
          s = set_slice s 18 (slice s 9 12);
          s = set_slice s 9 temp
      in s)"

definition move_U_prime :: "'a list \<Rightarrow> 'a list" where
  "move_U_prime s0 =
     (let s = rotate_face_counterclockwise s0 4;
          temp = slice s 0 3;
          s = set_slice s 0 (slice s 9 12);
          s = set_slice s 9 (slice s 18 21);
          s = set_slice s 18 (slice s 27 30);
          s = set_slice s 27 temp
      in s)"

definition move_D :: "'a list \<Rightarrow> 'a list" where
  "move_D s0 =
     (let s = rotate_face_clockwise s0 5;
          temp = slice s 6 9;
          s = set_slice s 6 (slice s 15 18);
          s = set_slice s 15 (slice s 24 27);
          s = set_slice s 24 (slice s 33 36);
          s = set_slice s 33 temp
      in s)"

definition move_D_prime :: "'a list \<Rightarrow> 'a list" where
  "move_D_prime s0 =
     (let s = rotate_face_counterclockwise s0 5;
          temp = slice s 6 9;
          s = set_slice s 6 (slice s 33 36);
          s = set_slice s 33 (slice s 24 27);
          s = set_slice s 24 (slice s 15 18);
          s = set_slice s 15 temp
      in s)"

definition move_L :: "'a list \<Rightarrow> 'a list" where
  "move_L s0 =
     (let s = rotate_face_clockwise s0 3;
          temp = get_idx s [0, 3, 6];
          s = set_idx s [0, 3, 6] (get_idx s [45, 48, 51]);
          s = set_idx s [45, 48, 51] (get_idx s [24, 21, 18]);
          s = set_idx s [24, 21, 18] (get_idx s [36, 39, 42]);
          s = set_idx s [36, 39, 42] temp
      in s)"

definition move_L_prime :: "'a list \<Rightarrow> 'a list" where
  "move_L_prime s0 =
     (let s = rotate_face_counterclockwise s0 3;
          temp = get_idx s [0, 3, 6];
          s = set_idx s [0, 3, 6] (get_idx s [36, 39, 42]);
          s = set_idx s [36, 39, 42] (get_idx s [24, 21, 18]);
          s = set_idx s [24, 21, 18] (get_idx s [45, 48, 51]);
          s = set_idx s [45, 48, 51] temp
      in s)"

definition move_R :: "'a list \<Rightarrow> 'a list" where
  "move_R s0 =
     (let s = rotate_face_clockwise s0 1;
          temp = get_idx s [2, 5, 8];
          s = set_idx s [2, 5, 8] (get_idx s [38, 41, 44]);
          s = set_idx s [38, 41, 44] (get_idx s [20, 23, 26]);
          s = set_idx s [20, 23, 26] (get_idx s [47, 50, 53]);
          s = set_idx s [47, 50, 53] temp
      in s)"

definition move_R_prime :: "'a list \<Rightarrow> 'a list" where
  "move_R_prime s0 =
     (let s = rotate_face_counterclockwise s0 1;
          temp = get_idx s [2, 5, 8];
          s = set_idx s [2, 5, 8] (get_idx s [47, 50, 53]);
          s = set_idx s [47, 50, 53] (get_idx s [20, 23, 26]);
          s = set_idx s [20, 23, 26] (get_idx s [38, 41, 44]);
          s = set_idx s [38, 41, 44] temp
      in s)"

definition move_F :: "'a list \<Rightarrow> 'a list" where
  "move_F s0 =
     (let s = rotate_face_clockwise s0 0;
          temp = get_idx s [42, 43, 44];
          s = set_idx s [42, 43, 44] (get_idx s [35, 32, 29]);
          s = set_idx s [35, 32, 29] (get_idx s [47, 46, 45]);
          s = set_idx s [47, 46, 45] (get_idx s [9, 12, 15]);
          s = set_idx s [9, 12, 15] [temp ! 2, temp ! 1, temp ! 0]
      in s)"

definition move_F_prime :: "'a list \<Rightarrow> 'a list" where
  "move_F_prime s0 =
     (let s = rotate_face_counterclockwise s0 0;
          temp = get_idx s [42, 43, 44];
          s = set_idx s [42, 43, 44] (get_idx s [9, 12, 15]);
          s = set_idx s [9, 12, 15] (get_idx s [47, 46, 45]);
          s = set_idx s [47, 46, 45] (get_idx s [35, 32, 29]);
          s = set_idx s [35, 32, 29] [temp ! 2, temp ! 1, temp ! 0]
      in s)"

definition move_B :: "'a list \<Rightarrow> 'a list" where
  "move_B s0 =
     (let s = rotate_face_clockwise s0 2;
          temp = get_idx s [0, 1, 2];
          s = set_idx s [0, 1, 2] (get_idx s [9, 10, 11]);
          s = set_idx s [9, 10, 11] (get_idx s [53, 52, 51]);
          s = set_idx s [53, 52, 51] (get_idx s [35, 34, 33]);
          s = set_idx s [35, 34, 33] temp
      in s)"

definition move_B_prime :: "'a list \<Rightarrow> 'a list" where
  "move_B_prime s0 =
     (let s = rotate_face_counterclockwise s0 2;
          temp = get_idx s [0, 1, 2];
          s = set_idx s [0, 1, 2] (get_idx s [35, 34, 33]);
          s = set_idx s [35, 34, 33] (get_idx s [53, 52, 51]);
          s = set_idx s [53, 52, 51] (get_idx s [9, 10, 11]);
          s = set_idx s [9, 10, 11] temp
      in s)"

text \<open>
  \<^verbatim>\<open>apply_move\<close> works on a copy of its argument and dispatches through the table; the
  half turns call the clockwise quarter turn twice.
\<close>

fun apply_move :: "'a list \<Rightarrow> move \<Rightarrow> 'a list" where
  "apply_move s (U, CW) = move_U s"
| "apply_move s (U, CCW) = move_U_prime s"
| "apply_move s (U, Half) = move_U (move_U s)"
| "apply_move s (D, CW) = move_D s"
| "apply_move s (D, CCW) = move_D_prime s"
| "apply_move s (D, Half) = move_D (move_D s)"
| "apply_move s (L, CW) = move_L s"
| "apply_move s (L, CCW) = move_L_prime s"
| "apply_move s (L, Half) = move_L (move_L s)"
| "apply_move s (R, CW) = move_R s"
| "apply_move s (R, CCW) = move_R_prime s"
| "apply_move s (R, Half) = move_R (move_R s)"
| "apply_move s (F, CW) = move_F s"
| "apply_move s (F, CCW) = move_F_prime s"
| "apply_move s (F, Half) = move_F (move_F s)"
| "apply_move s (B, CW) = move_B s"
| "apply_move s (B, CCW) = move_B_prime s"
| "apply_move s (B, Half) = move_B (move_B s)"

text \<open>The entry point on move symbols: an unknown symbol raises \<^verbatim>\<open>ValueError\<close>.\<close>

definition apply_move_named :: "'a list \<Rightarrow> string \<Rightarrow> error + 'a list" where
  "apply_move_named s name =
     (case parse_move name of None \<Rightarrow> Inl InvalidMove | Some m \<Rightarrow> Inr (apply_move s m))"

section \<open>The cube object\<close>

text \<open>
  The mutable fields of a \<^verbatim>\<open>RubikCube\<close>; its move engine holds no state. The constructor
  takes an optional array and rejects one whose length is not 54.
\<close>

record cube =
  state :: state
  move_history :: "move list"
  move_count :: int

definition RubikCube :: "state option \<Rightarrow> error + cube" where
  "RubikCube init =
     (case init of
        Some st \<Rightarrow>
          if length st \<noteq> 54 then Inl InvalidStateSize
          else Inr \<lparr>state = st, move_history = [], move_count = 0\<rparr>
      | None \<Rightarrow> Inr \<lparr>state = create_solved_state, move_history = [], move_count = 0\<rparr>)"

text \<open>\<^verbatim>\<open>RubikCube()\<close>, the call without an array, which cannot fail.\<close>

definition solved_cube :: cube where
  "solved_cube = \<lparr>state = create_solved_state, move_history = [], move_count = 0\<rparr>"

definition face_view :: "state \<Rightarrow> nat \<Rightarrow> label list" where
  "face_view s face_idx = slice s (face_idx * 9) ((face_idx + 1) * 9)"

definition get_face :: "cube \<Rightarrow> int \<Rightarrow> error + label list" where
  "get_face c face_idx =
     (if \<not> (0 \<le> face_idx \<and> face_idx < 6) then Inl InvalidFaceIndex
      else Inr (face_view (state c) (nat face_idx)))"

definition execute_move :: "cube \<Rightarrow> move \<Rightarrow> cube" where
  "execute_move c m =
     c\<lparr>state := apply_move (state c) m,
       move_history := move_history c @ [m],
       move_count := move_count c + 1\<rparr>"

definition execute_move_named :: "cube \<Rightarrow> string \<Rightarrow> error + cube" where
  "execute_move_named c name =
     (case parse_move name of None \<Rightarrow> Inl InvalidMove | Some m \<Rightarrow> Inr (execute_move c m))"

definition execute_sequence :: "cube \<Rightarrow> move list \<Rightarrow> cube" where
  "execute_sequence c moves = foldl execute_move c moves"

definition is_solved :: "cube \<Rightarrow> bool" where
  "is_solved c = (state c = create_solved_state)"

text \<open>\<^verbatim>\<open>copy\<close> builds a new cube from the state array and takes over a copy of the history.\<close>

definition copy :: "cube \<Rightarrow> error + cube" where
  "copy c =
     (case RubikCube (Some (state c)) of
        Inl e \<Rightarrow> Inl e
      | Inr new_cube \<Rightarrow> Inr (new_cube\<lparr>move_history := move_history c\<rparr>))"

subsection \<open>Scrambling\<close>

text \<open>
  \<^verbatim>\<open>reverse_map\<close> of \<^verbatim>\<open>_is_reverse_move\<close>; \<open>None\<close> as the second move is the source's
  \<^verbatim>\<open>last_move = None\<close>.
\<close>

fun reverse_map :: "move \<Rightarrow> move" where
  "reverse_map (f, CW) = (f, CCW)"
| "reverse_map (f, CCW) = (f, CW)"
| "reverse_map (f, Half) = (f, Half)"

fun is_reverse_move :: "move \<Rightarrow> move option \<Rightarrow> bool" where
  "is_reverse_move move1 None = False"
| "is_reverse_move move1 (Some move2) = (move1 = reverse_map move2)"

text \<open>
  The random source is numpy's global generator, which is not part of the program: it
  is a parameter here. \<open>rng_seed\<close> is the generator state that \<^verbatim>\<open>np.random.seed\<close> puts in
  place of the global one, computed from an accepted seed alone; \<open>rng_choice g n\<close> is the position
  drawn by \<^verbatim>\<open>np.random.choice\<close> from a list of \<open>n\<close> elements in generator state \<open>g\<close>,
  with the state that follows.
\<close>

record 'g rng =
  rng_seed :: "int \<Rightarrow> 'g"
  rng_choice :: "'g \<Rightarrow> nat \<Rightarrow> nat \<times> 'g"

text \<open>
  The loop of \<^verbatim>\<open>scramble\<close>, \<open>k\<close> rounds to go; the loop state is the cube, the moves
  recorded so far, the last move and the global generator state.
\<close>

fun scramble_loop ::
  "'g rng \<Rightarrow> nat \<Rightarrow> cube \<Rightarrow> move list \<Rightarrow> move option \<Rightarrow> 'g \<Rightarrow> cube \<times> move list \<times> 'g" where
  "scramble_loop gen 0 c scramble_moves last_move g = (c, scramble_moves, g)"
| "scramble_loop gen (Suc k) c scramble_moves last_move g =
     (let valid_moves = filter (\<lambda>m. \<not> is_reverse_move m last_move) get_all_moves;
          (i, g') = rng_choice gen g (length valid_moves);
          move = valid_moves ! i
      in scramble_loop gen k (execute_move c move) (scramble_moves @ [move]) (Some move) g')"

text \<open>
  \<^verbatim>\<open>scramble\<close> with a seed first calls \<^verbatim>\<open>np.random.seed(seed)\<close>, which accepts the
  integers from 0 to \<open>2^32 - 1\<close> and raises \<^verbatim>\<open>ValueError\<close> for any other: the call then
  ends before the loop, no move is executed and nothing is returned. Without a seed the
  global generator state is used as it is. \<^verbatim>\<open>range(num_moves)\<close> is empty for a negative
  count.
\<close>

definition scramble ::
  "'g rng \<Rightarrow> cube \<Rightarrow> int \<Rightarrow> int option \<Rightarrow> 'g \<Rightarrow> error + cube \<times> move list \<times> 'g" where
  "scramble gen c num_moves seed g =
     (case seed of
        Some sd \<Rightarrow>
          if sd < 0 \<or> 2 ^ 32 - 1 < sd then Inl InvalidSeed
          else Inr (scramble_loop gen (nat num_moves) c [] None (rng_seed gen sd))
      | None \<Rightarrow> Inr (scramble_loop gen (nat num_moves) c [] None g))"

section \<open>Heuristics\<close>

definition corners :: "nat list list" where
  "corners = [[0, 9, 36], [2, 11, 38], [6, 15, 42], [8, 17, 44],
              [18, 27, 45], [20, 29, 47], [24, 33, 51], [26, 35, 53]]"

definition edges :: "nat list list" where
  "edges = [[1, 37], [3, 39], [5, 41], [7, 43],
            [10, 46], [12, 48], [14, 50], [16, 52],
            [19, 28], [21, 30], [23, 32], [25, 34]]"

definition centers :: "nat list" where
  "centers = [4, 13, 22, 31, 40, 49]"

text \<open>
  \<^verbatim>\<open>manhattan_distance\<close>: the facelets other than the centre \<open>(1, 1)\<close> that differ from
  the solved cube, face by face; then \<^verbatim>\<open>min(distance, 20) // 4\<close>.
\<close>

definition manhattan_distance :: "cube \<Rightarrow> int" where
  "manhattan_distance c =
     (let distance = int (length
            [(face_idx, i, j). face_idx \<leftarrow> [0..<6], i \<leftarrow> [0..<3], j \<leftarrow> [0..<3],
               (i, j) \<noteq> (1, 1),
               face_view (state c) face_idx ! (3 * i + j)
                 \<noteq> face_view (state solved_cube) face_idx ! (3 * i + j)])
      in min distance 20 div 4)"

definition corner_penalty :: "cube \<Rightarrow> nat list \<Rightarrow> int" where
  "corner_penalty c corner =
     (if sort (get_idx (state c) corner) \<noteq> sort (get_idx (state solved_cube) corner) then 2
      else if get_idx (state c) corner \<noteq> get_idx (state solved_cube) corner then 1
      else 0)"

definition edge_penalty :: "cube \<Rightarrow> nat list \<Rightarrow> int" where
  "edge_penalty c edge =
     (if sort (get_idx (state c) edge) \<noteq> sort (get_idx (state solved_cube) edge) then 1
      else if get_idx (state c) edge \<noteq> get_idx (state solved_cube) edge then 1
      else 0)"

definition corner_edge_heuristic :: "cube \<Rightarrow> int" where
  "corner_edge_heuristic c =
     (if is_solved c then 0
      else
        let heuristic = sum_list (map (corner_penalty c) corners)
                      + sum_list (map (edge_penalty c) edges)
        in if heuristic > 0 then max 1 (heuristic div 4) else 0)"

definition bottom_positions :: "nat list" where
  "bottom_positions = [45..<54] @ [6, 7, 8, 15, 16, 17, 24, 25, 26, 33, 34, 35]"

definition middle_positions :: "nat list" where
  "middle_positions = [3, 5, 10, 12, 14, 16, 19, 21, 23, 25, 28, 30, 32, 34]"

definition layer_completion_heuristic :: "cube \<Rightarrow> int" where
  "layer_completion_heuristic c =
     (let wrong_bottom = filter (\<lambda>pos. state c ! pos \<noteq> state solved_cube ! pos) bottom_positions;
          bottom_solved = (wrong_bottom = []);
          heuristic = int (length wrong_bottom);
          heuristic = (if \<not> bottom_solved then heuristic + 20 else heuristic);
          heuristic = (if bottom_solved
             then heuristic + 2 * int (length
                    (filter (\<lambda>pos. state c ! pos \<noteq> state solved_cube ! pos) middle_positions))
             else heuristic)
      in heuristic)"

text \<open>
  \<^verbatim>\<open>int(0.3 * h1 + 0.5 * h2 + 0.2 * h3)\<close>. The source computes the sum in binary floating
  point; the model computes it in exact rational arithmetic. \<open>py_int\<close> is Python's
  \<^verbatim>\<open>int\<close> on a number: truncation towards zero.
\<close>

definition py_int :: "rat \<Rightarrow> int" where
  "py_int x = (if 0 \<le> x then \<lfloor>x\<rfloor> else \<lceil>x\<rceil>)"

definition combined_heuristic :: "cube \<Rightarrow> int" where
  "combined_heuristic c =
     (let h1 = manhattan_distance c;
          h2 = corner_edge_heuristic c;
          h3 = layer_completion_heuristic c
      in py_int (3 / 10 * of_int h1 + 5 / 10 * of_int h2 + 2 / 10 * of_int h3))"

section \<open>Move sequence optimizer\<close>

fun move_values :: "move \<Rightarrow> int" where
  "move_values (f, CW) = 1"
| "move_values (f, CCW) = - 1"
| "move_values (f, Half) = 2"

text \<open>
  \<^verbatim>\<open>optimize_sequence\<close>: the outer loop takes the move at \<open>i\<close>, the inner loop collects the
  moves that follow on the same face, and \<open>i\<close> continues behind them.
\<close>

function optimize_sequence :: "move list \<Rightarrow> move list" where
  "optimize_sequence [] = []"
| "optimize_sequence (current_move # rest) =
     (let face = fst current_move;
          consecutive_moves = current_move # takeWhile (\<lambda>m. fst m = face) rest;
          net_rotation = sum_list (map move_values consecutive_moves) mod 4;
          optimized =
            (if net_rotation = 1 then [(face, CW)]
             else if net_rotation = 2 then [(face, Half)]
             else if net_rotation = 3 then [(face, CCW)]
             else [])
      in optimized @ optimize_sequence (dropWhile (\<lambda>m. fst m = face) rest))"
  by pat_completeness auto
termination
  by (relation "measure length") (auto simp: length_dropWhile_le less_Suc_eq_le)

section \<open>Search statistics and the solver object\<close>

record search_statistics =
  nodes_explored :: int
  solution_found :: bool
  solution_length :: int
  solve_time :: real
  max_depth_reached :: int

definition initial_statistics :: search_statistics where
  "initial_statistics =
     \<lparr>nodes_explored = 0, solution_found = False, solution_length = 0,
      solve_time = 0, max_depth_reached = 0\<rparr>"

definition reset :: "search_statistics \<Rightarrow> search_statistics" where
  "reset st =
     st\<lparr>nodes_explored := 0, solution_found := False, solution_length := 0,
        solve_time := 0, max_depth_reached := 0\<rparr>"

text \<open>
  The fields of an \<^verbatim>\<open>AStarSolver\<close> that can change; the move tables set up by the
  constructor are constants.
\<close>

record solver =
  max_depth :: int
  timeout :: real
  statistics :: search_statistics

definition AStarSolver :: "int \<Rightarrow> real \<Rightarrow> solver" where
  "AStarSolver depth limit =
     \<lparr>max_depth = depth, timeout = limit, statistics = initial_statistics\<rparr>"

definition get_statistics :: "solver \<Rightarrow> search_statistics" where
  "get_statistics slv = statistics slv"

section \<open>Cube objects in a store\<close>

text \<open>
  The solver receives a reference to the caller's cube, copies it and mutates the
  copies. The store is the list of all cube objects, a reference is a position in it,
  and a new object is appended. A computation takes the store and returns it updated.

  The state array and the history list are values inside the cube object: no two cubes
  share them in the source. The constructor keeps a copy of the array it is given
  (\<^verbatim>\<open>np.array(state)\<close>, then \<^verbatim>\<open>state.copy()\<close>), \<^verbatim>\<open>copy\<close> copies the history list, and
  \<^verbatim>\<open>apply_move\<close> turns a copy of the array, which \<^verbatim>\<open>execute_move\<close> then assigns to
  the field.
\<close>

type_synonym ref = nat
type_synonym heap = "cube list"

definition new_ref :: "cube \<Rightarrow> heap \<Rightarrow> ref \<times> heap" where
  "new_ref c h = (length h, h @ [c])"

text \<open>\<^verbatim>\<open>cube.copy()\<close>: a new object, unless the constructor rejects the array.\<close>

definition copy_ref :: "ref \<Rightarrow> heap \<Rightarrow> (error + ref) \<times> heap" where
  "copy_ref a h =
     (case copy (h ! a) of
        Inl e \<Rightarrow> (Inl e, h)
      | Inr c \<Rightarrow> (Inr (length h), h @ [c]))"

definition execute_move_ref :: "ref \<Rightarrow> move \<Rightarrow> heap \<Rightarrow> heap" where
  "execute_move_ref a m h = h[a := execute_move (h ! a) m]"

definition execute_sequence_ref :: "ref \<Rightarrow> move list \<Rightarrow> heap \<Rightarrow> heap" where
  "execute_sequence_ref a moves h = foldl (\<lambda>h' m. execute_move_ref a m h') h moves"

text \<open>
  How a loop body ends: an exception, a \<^verbatim>\<open>return\<close> out of the enclosing function, or
  the next round with the loop variables.
\<close>

datatype ('r, 'a) flow = Raise error | Return 'r | Continue 'a

section \<open>The solver\<close>

definition are_opposite :: "move \<Rightarrow> move \<Rightarrow> bool" where
  "are_opposite move1 move2 =
     (let pairs = [((U, CW), (U, CCW)), ((R, CW), (R, CCW)), ((F, CW), (F, CCW)),
                   ((L, CW), (L, CCW)), ((D, CW), (D, CCW)), ((B, CW), (B, CCW))]
      in (move1, move2) \<in> set pairs \<or> (move2, move1) \<in> set pairs)"

text \<open>
  \<^verbatim>\<open>_quick_hash\<close> is Python's \<^verbatim>\<open>hash\<close> of the tuple of the first 24 labels. The hash
  function of the interpreter is a parameter \<open>py_hash\<close> of the solver.
\<close>

definition quick_hash :: "(label list \<Rightarrow> int) \<Rightarrow> cube \<Rightarrow> int" where
  "quick_hash py_hash c = py_hash (take 24 (state c))"

definition states_equal :: "cube \<Rightarrow> cube \<Rightarrow> bool" where
  "states_equal cube1 cube2 = (state cube1 = state cube2)"

text \<open>Python's truth value of an optional list: \<^verbatim>\<open>None\<close> and \<^verbatim>\<open>[]\<close> are false.\<close>

fun truthy :: "'a list option \<Rightarrow> bool" where
  "truthy None = False"
| "truthy (Some xs) = (xs \<noteq> [])"

subsection \<open>Strategy 1: breadth-first search\<close>

definition bfs_move_set :: "move list" where
  "bfs_move_set = [(U, CW), (U, CCW), (R, CW), (R, CCW), (F, CW), (F, CCW)]"

text \<open>The loop over the moves, for the cube \<open>cur\<close> taken from the queue with its path.\<close>

fun bfs_moves ::
  "ref \<Rightarrow> move list \<Rightarrow> move list \<Rightarrow> (ref \<times> move list) list \<Rightarrow> heap
     \<Rightarrow> (move list, (ref \<times> move list) list) flow \<times> heap" where
  "bfs_moves cur path [] queue h = (Continue queue, h)"
| "bfs_moves cur path (m # ms) queue h =
     (if path \<noteq> [] \<and> are_opposite m (last path) then bfs_moves cur path ms queue h
      else
        case copy_ref cur h of
          (Inl e, h1) \<Rightarrow> (Raise e, h1)
        | (Inr next_cube, h1) \<Rightarrow>
            let h2 = execute_move_ref next_cube m h1
            in if is_solved (h2 ! next_cube) then (Return (path @ [m]), h2)
               else bfs_moves cur path ms (queue @ [(next_cube, path @ [m])]) h2)"

text \<open>
  The loop over one level, \<open>k\<close> rounds to go: it stops when the queue is empty, and skips
  a cube whose hash was seen.
\<close>

fun bfs_level ::
  "(label list \<Rightarrow> int) \<Rightarrow> nat \<Rightarrow> (ref \<times> move list) list \<Rightarrow> int set \<Rightarrow> heap
     \<Rightarrow> (move list, (ref \<times> move list) list \<times> int set) flow \<times> heap" where
  "bfs_level py_hash 0 queue visited h = (Continue (queue, visited), h)"
| "bfs_level py_hash (Suc k) [] visited h = (Continue ([], visited), h)"
| "bfs_level py_hash (Suc k) ((cur, path) # queue) visited h =
     (let state_hash = quick_hash py_hash (h ! cur)
      in if state_hash \<in> visited then bfs_level py_hash k queue visited h
         else
           case bfs_moves cur path bfs_move_set queue h of
             (Raise e, h1) \<Rightarrow> (Raise e, h1)
           | (Return found, h1) \<Rightarrow> (Return found, h1)
           | (Continue queue1, h1) \<Rightarrow>
               bfs_level py_hash k queue1 (insert state_hash visited) h1)"

text \<open>The loop over the depths, \<open>d\<close> rounds to go.\<close>

fun bfs_depth ::
  "(label list \<Rightarrow> int) \<Rightarrow> nat \<Rightarrow> (ref \<times> move list) list \<Rightarrow> int set \<Rightarrow> heap
     \<Rightarrow> (error + move list option) \<times> heap" where
  "bfs_depth py_hash 0 queue visited h = (Inr None, h)"
| "bfs_depth py_hash (Suc d) queue visited h =
     (case bfs_level py_hash (length queue) queue visited h of
        (Raise e, h1) \<Rightarrow> (Inl e, h1)
      | (Return found, h1) \<Rightarrow> (Inr (Some found), h1)
      | (Continue (queue1, visited1), h1) \<Rightarrow> bfs_depth py_hash d queue1 visited1 h1)"

definition fast_bfs ::
  "(label list \<Rightarrow> int) \<Rightarrow> ref \<Rightarrow> heap \<Rightarrow> (error + move list option) \<times> heap" where
  "fast_bfs py_hash a h =
     (case copy_ref a h of
        (Inl e, h1) \<Rightarrow> (Inl e, h1)
      | (Inr start, h1) \<Rightarrow> bfs_depth py_hash 6 [(start, [])] {} h1)"

subsection \<open>Strategy 2: reverse-scramble enumeration\<close>

definition test_moves :: "move list" where
  "test_moves =
     [(U, CW), (U, CCW), (U, Half), (R, CW), (R, CCW), (R, Half),
      (F, CW), (F, CCW), (F, Half), (L, CW), (L, CCW), (L, Half),
      (D, CW), (D, CCW), (D, Half), (B, CW), (B, CCW), (B, Half)]"

text \<open>The check for immediate reversals, over the adjacent positions of the candidate.\<close>

definition valid_sequence :: "move list \<Rightarrow> bool" where
  "valid_sequence moves =
     (\<not> list_ex (\<lambda>i. are_opposite (moves ! i) (moves ! (i + 1))) [0..<length moves - 1])"

fun invert_move :: "move \<Rightarrow> move" where
  "invert_move (f, CCW) = (f, CW)"
| "invert_move (f, Half) = (f, Half)"
| "invert_move (f, CW) = (f, CCW)"

definition invert_sequence :: "move list \<Rightarrow> move list" where
  "invert_sequence moves = map invert_move (rev moves)"

text \<open>
  The loop over the candidates of one length, in the order of \<^verbatim>\<open>itertools.product\<close>;
  each valid candidate is executed on a new solved cube.
\<close>

fun rs_candidates :: "move list list \<Rightarrow> ref \<Rightarrow> heap \<Rightarrow> move list option \<times> heap" where
  "rs_candidates [] a h = (None, h)"
| "rs_candidates (moves # rest) a h =
     (if \<not> valid_sequence moves then rs_candidates rest a h
      else
        let (test_cube, h1) = new_ref solved_cube h;
            h2 = execute_sequence_ref test_cube moves h1
        in if states_equal (h2 ! test_cube) (h2 ! a) then (Some (invert_sequence moves), h2)
           else rs_candidates rest a h2)"

fun rs_lengths :: "nat list \<Rightarrow> ref \<Rightarrow> heap \<Rightarrow> move list option \<times> heap" where
  "rs_lengths [] a h = (None, h)"
| "rs_lengths (n # ns) a h =
     (case rs_candidates (product_lists (replicate n test_moves)) a h of
        (Some found, h1) \<Rightarrow> (Some found, h1)
      | (None, h1) \<Rightarrow> rs_lengths ns a h1)"

definition reverse_solve :: "ref \<Rightarrow> heap \<Rightarrow> move list option \<times> heap" where
  "reverse_solve a h = rs_lengths [1..<9] a h"

subsection \<open>Strategy 3: greedy pattern improvement\<close>

definition patterns :: "move list list" where
  "patterns =
     [[(U, CW)], [(U, CCW)], [(R, CW)], [(R, CCW)], [(F, CW)], [(F, CCW)],
      [(L, CW)], [(L, CCW)], [(D, CW)], [(D, CCW)], [(B, CW)], [(B, CCW)],
      [(R, CW), (U, CW), (R, CCW), (U, CCW)],
      [(U, CW), (R, CW), (U, CCW), (R, CCW)],
      [(F, CW), (R, CW), (U, CW), (R, CCW), (U, CCW), (F, CCW)],
      [(R, CW), (U, CW), (R, CCW), (F, CW), (R, CW), (F, CCW)],
      [(U, CW), (R, CW), (U, CCW), (R, CCW), (U, CCW), (F, CW), (R, CW), (F, CCW)],
      [(R, CW), (U, Half), (R, CCW), (U, CCW), (R, CW), (U, CCW), (R, CCW)],
      [(R, CW), (U, CW), (R, CCW), (U, CW), (R, CW), (U, Half), (R, CCW)],
      [(F, CW), (U, CW), (R, CW), (U, CCW), (R, CCW), (F, CCW)],
      [(R, CW), (U, CW), (R, CCW)], [(F, CW), (U, CW), (F, CCW)], [(R, CW), (F, CW), (R, CCW)]]"

text \<open>
  \<^verbatim>\<open>_count_correct_pieces\<close>: the positions of the cube's array that agree with the solved
  array; an array longer than the solved one runs into \<^verbatim>\<open>IndexError\<close>, which the
  \<^verbatim>\<open>except\<close> clause turns into 0.
\<close>

definition count_correct_pieces :: "cube \<Rightarrow> int" where
  "count_correct_pieces c =
     (let current = state c; solved = state solved_cube
      in if length current \<le> length solved
         then int (length (filter (\<lambda>i. current ! i = solved ! i) [0..<length current]))
         else 0)"

text \<open>The loop over the patterns, for the working cube \<open>w\<close>.\<close>

fun bf_patterns ::
  "ref \<Rightarrow> move list \<Rightarrow> move list list \<Rightarrow> move list option \<Rightarrow> int \<Rightarrow> heap
     \<Rightarrow> (move list, move list option \<times> int) flow \<times> heap" where
  "bf_patterns w solution [] best_pattern best_score h =
     (Continue (best_pattern, best_score), h)"
| "bf_patterns w solution (pattern # rest) best_pattern best_score h =
     (case copy_ref w h of
        (Inl e, h1) \<Rightarrow> (Raise e, h1)
      | (Inr test_cube, h1) \<Rightarrow>
          let h2 = execute_sequence_ref test_cube pattern h1
          in if is_solved (h2 ! test_cube) then (Return (solution @ pattern), h2)
             else
               let score = count_correct_pieces (h2 ! test_cube)
               in if score > best_score
                  then bf_patterns w solution rest (Some pattern) score h2
                  else bf_patterns w solution rest best_pattern best_score h2)"

text \<open>
  The outer loop, \<open>k\<close> rounds to go, at round number \<open>iteration\<close>; leaving the loop, by
  its end or by \<^verbatim>\<open>break\<close>, leads to the final test of the working cube.
\<close>

fun bf_iterations ::
  "nat \<Rightarrow> nat \<Rightarrow> ref \<Rightarrow> move list \<Rightarrow> heap \<Rightarrow> (error + move list option) \<times> heap" where
  "bf_iterations 0 iteration w solution h =
     (Inr (if is_solved (h ! w) then Some solution else None), h)"
| "bf_iterations (Suc k) iteration w solution h =
     (if is_solved (h ! w) then (Inr (Some solution), h)
      else
        case bf_patterns w solution patterns None (count_correct_pieces (h ! w)) h of
          (Raise e, h1) \<Rightarrow> (Inl e, h1)
        | (Return found, h1) \<Rightarrow> (Inr (Some found), h1)
        | (Continue (best_pattern, best_score), h1) \<Rightarrow>
            let chosen = (if truthy best_pattern then the best_pattern
                          else patterns ! (iteration mod length patterns));
                h2 = execute_sequence_ref w chosen h1;
                solution2 = solution @ chosen
            in if length solution2 > 100
               then (Inr (if is_solved (h2 ! w) then Some solution2 else None), h2)
               else bf_iterations k (iteration + 1) w solution2 h2)"

definition brute_force_solve :: "ref \<Rightarrow> heap \<Rightarrow> (error + move list option) \<times> heap" where
  "brute_force_solve a h =
     (case copy_ref a h of
        (Inl e, h1) \<Rightarrow> (Inl e, h1)
      | (Inr w, h1) \<Rightarrow> bf_iterations 50 0 w [] h1)"

subsection \<open>The entry point\<close>

definition valid_heuristics :: "string list" where
  "valid_heuristics = [''manhattan'', ''corner_edge'', ''combined'']"

text \<open>
  \<^verbatim>\<open>solve\<close> on the solver object \<open>slv\<close> and the cube at reference \<open>a\<close>: the result or the
  exception, the solver object and the store after the call. No statement of \<^verbatim>\<open>solve\<close>
  or of the three strategies assigns to a field of the solver object.
\<close>

definition solve ::
  "(label list \<Rightarrow> int) \<Rightarrow> solver \<Rightarrow> ref \<Rightarrow> string \<Rightarrow> heap
     \<Rightarrow> (error + move list option) \<times> solver \<times> heap" where
  "solve py_hash slv a heuristic_type h =
     (if heuristic_type \<notin> set valid_heuristics then (Inl UnknownHeuristic, slv, h)
      else if is_solved (h ! a) then (Inr (Some []), slv, h)
      else
        case fast_bfs py_hash a h of
          (Inl e, h1) \<Rightarrow> (Inl e, slv, h1)
        | (Inr bfs_solution, h1) \<Rightarrow>
            if truthy bfs_solution then (Inr bfs_solution, slv, h1)
            else
              let (reverse_solution, h2) = reverse_solve a h1
              in if truthy reverse_solution then (Inr reverse_solution, slv, h2)
                 else
                   (case brute_force_solve a h2 of
                      (Inl e, h3) \<Rightarrow> (Inl e, slv, h3)
                    | (Inr found, h3) \<Rightarrow> (Inr found, slv, h3)))"

section \<open>Predicates of the claims\<close>

text \<open>
  The label multiset of a state is 9-of-each: 54 labels, and each of the six labels
  0 to 5 occurs nine times.
\<close>

definition nine_of_each :: "state \<Rightarrow> bool" where
  "nine_of_each s = (length s = 54 \<and> list_all (\<lambda>c. count_list s c = 9) [0, 1, 2, 3, 4, 5])"

text \<open>The six centre facelets of a state carry the labels of the solved state.\<close>

definition centres_in_place :: "state \<Rightarrow> bool" where
  "centres_in_place s = list_all (\<lambda>k. s ! k = create_solved_state ! k) centers"

text \<open>The solved array with the first Front facelet relabelled: one facelet is wrong.\<close>

definition one_wrong_facelet :: state where
  "one_wrong_facelet = create_solved_state[0 := 1]"

text \<open>
  The objects at the references below \<open>n\<close> are the same in the store \<open>h'\<close> as in the
  store \<open>h\<close>, and \<open>h'\<close> has lost no object.
\<close>

definition unchanged_below :: "nat \<Rightarrow> heap \<Rightarrow> heap \<Rightarrow> bool" where
  "unchanged_below n h h' = (length h \<le> length h' \<and> take n h' = take n h)"

text \<open>
  A solver object whose statistics were left by an earlier use: none of the fields has
  its reset value.
\<close>

definition stale_statistics :: search_statistics where
  "stale_statistics =
     \<lparr>nodes_explored = 5, solution_found = True, solution_length = 3,
      solve_time = 1, max_depth_reached = 2\<rparr>"

definition stale_solver :: solver where
  "stale_solver = \<lparr>max_depth = 25, timeout = 60, statistics = stale_statistics\<rparr>"

text \<open>A hash function for the evaluations: the sum of the labels.\<close>

definition sum_hash :: "label list \<Rightarrow> int" where
  "sum_hash xs = sum_list xs"

text \<open>
  No move of the list is the reverse, by \<^verbatim>\<open>reverse_map\<close>, of the move just before it;
  \<open>last_move\<close> is the move before the first one, if any.
\<close>

fun no_reversal_after :: "move option \<Rightarrow> move list \<Rightarrow> bool" where
  "no_reversal_after last_move [] = True"
| "no_reversal_after last_move (m # ms) =
     (\<not> is_reverse_move m last_move \<and> no_reversal_after (Some m) ms)"

definition last_of :: "move list \<Rightarrow> move option" where
  "last_of ms = (if ms = [] then None else Some (last ms))"

text \<open>A random source for the evaluations: a small linear congruential generator.\<close>

definition lcg :: "nat rng" where
  "lcg = \<lparr>rng_seed = (\<lambda>sd. nat \<bar>sd\<bar>), rng_choice = (\<lambda>g n. (g mod n, (5 * g + 3) mod 64))\<rparr>"

text \<open>
  A cube of 54 labels whose facelet 24 (on the Back face) is not Blue. The moves of the
  breadth-first search leave facelet 24 alone, so the search cannot solve such a cube.
\<close>

definition blocked :: "cube \<Rightarrow> bool" where
  "blocked c = (length (state c) = 54 \<and> state c ! 24 \<noteq> 2)"

definition queue_blocked :: "(ref \<times> move list) list \<Rightarrow> heap \<Rightarrow> bool" where
  "queue_blocked queue h = (\<forall>(r, p) \<in> set queue. r < length h \<and> blocked (h ! r))"

text \<open>The cube scrambled from the solved one by the moves L, F.\<close>

definition lf_cube :: cube where
  "lf_cube = execute_sequence solved_cube [(L, CW), (F, CW)]"

section \<open>Moves are permutations of the 54 positions\<close>

text \<open>
  Every move sends a state of 54 labels to a rearrangement of it: the move applied to
  the list of positions says which old position each new position reads.
\<close>

lemma apply_move_index:
  "apply_move (map f [0..<54]) (a, b) = map (f :: nat \<Rightarrow> int) (apply_move [0..<54] (a, b))"
  by (cases a; cases b; hypsubst; code_simp)

lemma apply_move_index_sorted: "sort (apply_move [0..<54] (a, b)) = [0..<54]"
  by (cases a; cases b; hypsubst; code_simp)

lemma apply_move_via_index:
  fixes s :: state
  assumes "length s = 54"
  shows "apply_move s m = map ((!) s) (apply_move [0..<54] m)"
proof -
  have "map ((!) s) [0..<54] = s"
    using assms map_nth [of s] by simp
  then show ?thesis
    using apply_move_index [of "(!) s" "fst m" "snd m"] by simp
qed

lemma mset_apply_move:
  fixes s :: state
  assumes "length s = 54"
  shows "mset (apply_move s m) = mset s"
proof -
  have "mset (apply_move [0..<54] m) = mset (sort (apply_move [0..<54] m))"
    by simp
  also have "\<dots> = mset [0..<54]"
    using apply_move_index_sorted [of "fst m" "snd m"] by simp
  finally have p: "mset (apply_move [0..<54] m) = mset [0..<54]" .
  have "mset (apply_move s m) = image_mset ((!) s) (mset (apply_move [0..<54] m))"
    using apply_move_via_index [OF assms] by simp
  also have "\<dots> = mset (map ((!) s) [0..<54])"
    unfolding p by simp
  also have "\<dots> = mset s"
    using assms map_nth [of s] by simp
  finally show ?thesis .
qed

lemma length_apply_move:
  fixes s :: state
  shows "length s = 54 \<Longrightarrow> length (apply_move s m) = 54"
  using mset_apply_move [of s m] by (metis size_mset)

lemma count_list_apply_move:
  fixes s :: state
  shows "length s = 54 \<Longrightarrow> count_list (apply_move s m) c = count_list s c"
  using mset_apply_move [of s m] by (metis count_mset)

lemma nine_of_each_apply_move: "nine_of_each s \<Longrightarrow> nine_of_each (apply_move s m)"
  by (simp add: nine_of_each_def length_apply_move count_list_apply_move)

lemma nine_of_each_solved: "nine_of_each create_solved_state"
  by code_simp

lemma state_execute_sequence: "state (execute_sequence c ms) = foldl apply_move (state c) ms"
  unfolding execute_sequence_def
  by (induction ms arbitrary: c) (simp_all add: execute_move_def)

lemma nine_of_each_foldl: "nine_of_each s \<Longrightarrow> nine_of_each (foldl apply_move s ms)"
  by (induction ms arbitrary: s) (simp_all add: nine_of_each_apply_move)

text \<open>
  Claim C4. A move applied to a state with nine occurrences of each of the six labels
  gives a state with nine occurrences of each label, and so does every sequence of
  moves executed on a solved cube.
\<close>

theorem label_counts_preserved:
  "(nine_of_each s \<longrightarrow> nine_of_each (apply_move s m))
   \<and> nine_of_each (state (execute_sequence solved_cube ms))"
  using nine_of_each_apply_move nine_of_each_foldl [OF nine_of_each_solved]
  by (simp add: state_execute_sequence solved_cube_def)

theorem label_counts_preserved_witness:
  "nine_of_each create_solved_state
   \<and> nine_of_each (apply_move create_solved_state (F, CW))
   \<and> nine_of_each (state (execute_sequence solved_cube [(L, CW), (F, Half), (B, CCW)]))"
proof -
  have h: "nine_of_each create_solved_state" by code_simp
  from label_counts_preserved [of create_solved_state "(F, CW)" "[(L, CW), (F, Half), (B, CCW)]"] h
  show ?thesis by blast
qed

section \<open>Quarter turns and their inverses\<close>

text \<open>
  On every face but Front, each move followed by its inverse move (the opposite quarter
  turn, or the same half turn) gives back every state of 54 labels.
\<close>

lemma inverse_pair_index:
  "a \<noteq> F \<Longrightarrow>
   apply_move (apply_move (map f [0..<54]) (a, t)) (invert_move (a, t))
     = map (f :: nat \<Rightarrow> int) [0..<54]"
  by (cases a; cases t; hypsubst; (simp; fail | code_simp))

lemma inverse_pair_other_faces:
  fixes s :: state
  assumes "length s = 54" and "a \<noteq> F"
  shows "apply_move (apply_move s (a, t)) (invert_move (a, t)) = s"
proof -
  have "map ((!) s) [0..<54] = s"
    using assms(1) map_nth [of s] by simp
  then show ?thesis
    using inverse_pair_index [OF assms(2), of "(!) s" t] by simp
qed

text \<open>
  Claim C2, evaluated where it fails. On the cube obtained from the solved one by the
  move U, a state of 54 labels, the move F followed by the move F' does not give the
  state back: \<^verbatim>\<open>_move_F\<close> and \<^verbatim>\<open>_move_F_prime\<close> both end their cycle of the four
  strips by writing the saved Up row in reversed order, so each moves the strip ends in
  a cycle of length 8 and neither undoes the other.
\<close>

theorem F_then_F_prime_changes_state:
  "length (state (execute_move solved_cube (U, CW))) = 54
   \<and> apply_move (apply_move (state (execute_move solved_cube (U, CW))) (F, CW)) (F, CCW)
       \<noteq> state (execute_move solved_cube (U, CW))"
  by code_simp

text \<open>The optimizer never lengthens a sequence.\<close>

lemma optimize_sequence_length: "length (optimize_sequence ms) \<le> length ms"
proof (induction ms rule: optimize_sequence.induct)
  case 1
  then show ?case by simp
next
  case (2 current_move rest)
  have "length (optimize_sequence (dropWhile (\<lambda>m. fst m = fst current_move) rest))
          \<le> length (dropWhile (\<lambda>m. fst m = fst current_move) rest)"
    using "2.IH" [OF refl refl refl refl] .
  also have "\<dots> \<le> length rest"
    by (rule length_dropWhile_le)
  finally show ?case
    by (simp add: Let_def)
qed

text \<open>
  Claim C3, evaluated where it fails. The optimizer reduces the sequence F, F' to the
  empty sequence, which is not longer; executed on the cube obtained from the solved
  one by the move U, the two sequences give different states.
\<close>

theorem optimize_F_F_prime_changes_result:
  "optimize_sequence [(F, CW), (F, CCW)] = []
   \<and> length (optimize_sequence [(F, CW), (F, CCW)]) \<le> length [(F, CW), (F, CCW)]
   \<and> state (execute_sequence (execute_move solved_cube (U, CW))
              (optimize_sequence [(F, CW), (F, CCW)]))
       \<noteq> state (execute_sequence (execute_move solved_cube (U, CW)) [(F, CW), (F, CCW)])"
  by code_simp

section \<open>Heuristic values\<close>

lemma manhattan_nonneg: "0 \<le> manhattan_distance c"
  by (simp add: manhattan_distance_def Let_def)

lemma corner_edge_nonneg: "0 \<le> corner_edge_heuristic c"
  by (simp add: corner_edge_heuristic_def Let_def le_max_iff_disj)

lemma layer_nonneg: "0 \<le> layer_completion_heuristic c"
  by (simp add: layer_completion_heuristic_def Let_def)

lemma combined_nonneg: "0 \<le> combined_heuristic c"
  using manhattan_nonneg [of c] corner_edge_nonneg [of c] layer_nonneg [of c]
  by (simp add: combined_heuristic_def Let_def py_int_def)

lemma heuristics_solved:
  "manhattan_distance solved_cube = 0 \<and> corner_edge_heuristic solved_cube = 0
   \<and> layer_completion_heuristic solved_cube = 0 \<and> combined_heuristic solved_cube = 0"
  by code_simp

lemma heuristics_single_move:
  "0 < manhattan_distance (execute_move solved_cube (a, b))
   \<and> 0 < corner_edge_heuristic (execute_move solved_cube (a, b))
   \<and> 0 < layer_completion_heuristic (execute_move solved_cube (a, b))
   \<and> 0 < combined_heuristic (execute_move solved_cube (a, b))"
  by (cases a; cases b; hypsubst; code_simp)

text \<open>
  The corner and edge tables and the centres cover the 54 positions, and every piece
  that differs from the solved cube costs at least 1: on a cube of 54 labels with its
  centres in place the corner/edge estimate is 0 only if the cube is solved.
\<close>

lemma corner_penalty_zero:
  "corner_penalty c corner = 0 \<Longrightarrow>
   get_idx (state c) corner = get_idx (state solved_cube) corner"
  by (simp add: corner_penalty_def split: if_splits)

lemma edge_penalty_zero:
  "edge_penalty c edge = 0 \<Longrightarrow> get_idx (state c) edge = get_idx (state solved_cube) edge"
  by (simp add: edge_penalty_def split: if_splits)

lemma corner_penalty_nonneg: "0 \<le> corner_penalty c corner"
  by (simp add: corner_penalty_def)

lemma edge_penalty_nonneg: "0 \<le> edge_penalty c edge"
  by (simp add: edge_penalty_def)

lemma get_idx_eq_nth:
  "get_idx s idxs = get_idx t idxs \<Longrightarrow> p \<in> set idxs \<Longrightarrow> s ! p = t ! p"
  by (simp add: get_idx_def)

lemma pieces_and_centers_cover:
  "list_all (\<lambda>i. i \<in> set (concat corners) \<or> i \<in> set (concat edges) \<or> i \<in> set centers) [0..<54]"
  by code_simp

lemma length_solved: "length create_solved_state = 54"
  by code_simp

lemma corner_edge_zero_solved:
  assumes len: "length (state c) = 54" and cen: "centres_in_place (state c)"
    and zero: "corner_edge_heuristic c = 0"
  shows "is_solved c"
proof (rule ccontr)
  assume ns: "\<not> is_solved c"
  let ?h = "sum_list (map (corner_penalty c) corners) + sum_list (map (edge_penalty c) edges)"
  have cs: "0 \<le> sum_list (map (corner_penalty c) corners)"
    by (rule sum_list_nonneg) (auto simp: corner_penalty_nonneg)
  have es: "0 \<le> sum_list (map (edge_penalty c) edges)"
    by (rule sum_list_nonneg) (auto simp: edge_penalty_nonneg)
  have "\<not> 0 < ?h"
  proof
    assume "0 < ?h"
    then have "corner_edge_heuristic c = max 1 (?h div 4)"
      using ns by (simp add: corner_edge_heuristic_def Let_def)
    then show False using zero by simp
  qed
  then have c0: "sum_list (map (corner_penalty c) corners) = 0"
    and e0: "sum_list (map (edge_penalty c) edges) = 0"
    using cs es by simp_all
  have cz: "corner_penalty c corner = 0" if "corner \<in> set corners" for corner
  proof -
    have "\<forall>x \<in> set (map (corner_penalty c) corners). x = 0"
      using c0 sum_list_nonneg_eq_0_iff [of "map (corner_penalty c) corners"]
        corner_penalty_nonneg by fastforce
    then show ?thesis using that by simp
  qed
  have ez: "edge_penalty c edge = 0" if "edge \<in> set edges" for edge
  proof -
    have "\<forall>x \<in> set (map (edge_penalty c) edges). x = 0"
      using e0 sum_list_nonneg_eq_0_iff [of "map (edge_penalty c) edges"]
        edge_penalty_nonneg by fastforce
    then show ?thesis using that by simp
  qed
  have eq: "state c ! i = create_solved_state ! i" if i: "i < 54" for i
  proof -
    have "i \<in> set (concat corners) \<or> i \<in> set (concat edges) \<or> i \<in> set centers"
      using pieces_and_centers_cover i by (simp add: list_all_iff)
    then consider (corner) corner where "corner \<in> set corners" "i \<in> set corner"
      | (edge) edge where "edge \<in> set edges" "i \<in> set edge"
      | (center) "i \<in> set centers"
      by auto
    then show ?thesis
    proof cases
      case corner
      then show ?thesis
        using get_idx_eq_nth [OF corner_penalty_zero [OF cz [OF corner(1)]] corner(2)]
        by (simp add: solved_cube_def)
    next
      case edge
      then show ?thesis
        using get_idx_eq_nth [OF edge_penalty_zero [OF ez [OF edge(1)]] edge(2)]
        by (simp add: solved_cube_def)
    next
      case center
      then show ?thesis
        using cen by (simp add: centres_in_place_def list_all_iff)
    qed
  qed
  have "state c = create_solved_state"
    using len length_solved eq by (simp add: list_eq_iff_nth_eq)
  then show False using ns by (simp add: is_solved_def)
qed

text \<open>
  No move takes a centre facelet away, so every cube reached from the solved one has its
  centres in place.
\<close>

lemma apply_move_index_centres:
  "list_all (\<lambda>k. apply_move (map f [0..<54]) (a, b) ! k = (f :: nat \<Rightarrow> int) k) centers"
  by (cases a; cases b; hypsubst; code_simp)


lemma apply_move_keeps_centres:
  fixes s :: state
  assumes "length s = 54" and "centres_in_place s"
  shows "centres_in_place (apply_move s m)"
proof -
  have "map ((!) s) [0..<54] = s"
    using assms(1) map_nth [of s] by simp
  then have "list_all (\<lambda>k. apply_move s m ! k = s ! k) centers"
    using apply_move_index_centres [of "(!) s" "fst m" "snd m"] by simp
  then show ?thesis
    using assms(2) by (simp add: centres_in_place_def list_all_iff)
qed

lemma centres_solved: "centres_in_place create_solved_state"
  by (simp add: centres_in_place_def list_all_iff)

lemma reachable_length_centres:
  fixes s :: state
  shows "length s = 54 \<Longrightarrow> centres_in_place s \<Longrightarrow>
         length (foldl apply_move s ms) = 54 \<and> centres_in_place (foldl apply_move s ms)"
  by (induction ms arbitrary: s) (simp_all add: length_apply_move apply_move_keeps_centres)

lemma corner_edge_zero_reachable:
  "corner_edge_heuristic (execute_sequence solved_cube ms) = 0 \<Longrightarrow>
   is_solved (execute_sequence solved_cube ms)"
  using reachable_length_centres [OF length_solved centres_solved, of ms]
    corner_edge_zero_solved [of "execute_sequence solved_cube ms"]
  by (simp add: state_execute_sequence solved_cube_def)

text \<open>
  Claim C9 as stated fails: for three of the four estimates zero is not reserved to the
  solved state. The cube built from the solved array with one facelet relabelled is
  accepted by the constructor and is not solved, yet the misplaced-facelet, the
  layer-completion and the combined estimate are 0 on it (the corner/edge estimate is
  1); and the unsolved cube reached from the solved one by the moves U, F, F', U' has
  misplaced-facelet estimate 0 (and corner/edge estimate 1).
\<close>

theorem heuristic_zero_on_unsolved_state:
  "RubikCube (Some one_wrong_facelet)
     = Inr \<lparr>state = one_wrong_facelet, move_history = [], move_count = 0\<rparr>
   \<and> \<not> is_solved \<lparr>state = one_wrong_facelet, move_history = [], move_count = 0\<rparr>
   \<and> manhattan_distance \<lparr>state = one_wrong_facelet, move_history = [], move_count = 0\<rparr> = 0
   \<and> layer_completion_heuristic
        \<lparr>state = one_wrong_facelet, move_history = [], move_count = 0\<rparr> = 0
   \<and> combined_heuristic \<lparr>state = one_wrong_facelet, move_history = [], move_count = 0\<rparr> = 0
   \<and> corner_edge_heuristic \<lparr>state = one_wrong_facelet, move_history = [], move_count = 0\<rparr> = 1
   \<and> \<not> is_solved (execute_sequence solved_cube [(U, CW), (F, CW), (F, CCW), (U, CCW)])
   \<and> manhattan_distance
        (execute_sequence solved_cube [(U, CW), (F, CW), (F, CCW), (U, CCW)]) = 0
   \<and> corner_edge_heuristic
        (execute_sequence solved_cube [(U, CW), (F, CW), (F, CCW), (U, CCW)]) = 1"
  by code_simp

text \<open>
  Claim C9 as amended. Each of the four estimates is a non-negative integer on every
  cube, is 0 on the solved cube, and is strictly positive on every cube reached from the
  solved one by a single move, whichever of the 18 moves it is. The corner/edge estimate
  is 0 exactly at the solved state: on every cube of 54 labels with its centres in
  place, and so on every cube reached from the solved one by any sequence of moves, it
  is 0 only if the cube is solved. The three other estimates are 0 on some unsolved
  cubes as well.
\<close>

theorem heuristics_nonneg_zero_solved_positive_after_move:
  "0 \<le> manhattan_distance c \<and> 0 \<le> corner_edge_heuristic c
   \<and> 0 \<le> layer_completion_heuristic c \<and> 0 \<le> combined_heuristic c
   \<and> manhattan_distance solved_cube = 0 \<and> corner_edge_heuristic solved_cube = 0
   \<and> layer_completion_heuristic solved_cube = 0 \<and> combined_heuristic solved_cube = 0
   \<and> 0 < manhattan_distance (execute_move solved_cube m)
   \<and> 0 < corner_edge_heuristic (execute_move solved_cube m)
   \<and> 0 < layer_completion_heuristic (execute_move solved_cube m)
   \<and> 0 < combined_heuristic (execute_move solved_cube m)
   \<and> (length (state c) = 54 \<and> centres_in_place (state c) \<and> corner_edge_heuristic c = 0
        \<longrightarrow> is_solved c)
   \<and> (corner_edge_heuristic (execute_sequence solved_cube ms) = 0
        \<longrightarrow> is_solved (execute_sequence solved_cube ms))"
  using manhattan_nonneg [of c] corner_edge_nonneg [of c] layer_nonneg [of c]
    combined_nonneg [of c] heuristics_solved heuristics_single_move [of "fst m" "snd m"]
    corner_edge_zero_solved [of c] corner_edge_zero_reachable [of ms]
  by simp

theorem heuristics_nonneg_zero_solved_positive_after_move_witness:
  "length (state (execute_sequence solved_cube [(U, CW), (U, CCW)])) = 54
   \<and> centres_in_place (state (execute_sequence solved_cube [(U, CW), (U, CCW)]))
   \<and> corner_edge_heuristic (execute_sequence solved_cube [(U, CW), (U, CCW)]) = 0
   \<and> is_solved (execute_sequence solved_cube [(U, CW), (U, CCW)])"
proof -
  have l: "length (state (execute_sequence solved_cube [(U, CW), (U, CCW)])) = 54"
    by code_simp
  have c: "centres_in_place (state (execute_sequence solved_cube [(U, CW), (U, CCW)]))"
    by code_simp
  have z: "corner_edge_heuristic (execute_sequence solved_cube [(U, CW), (U, CCW)]) = 0"
    by code_simp
  from heuristics_nonneg_zero_solved_positive_after_move
         [of "execute_sequence solved_cube [(U, CW), (U, CCW)]" "(U, CW)" "[(U, CW), (U, CCW)]"]
       l c z
  show ?thesis by blast
qed

section \<open>The solver works on copies\<close>

text \<open>
  Every strategy appends the cubes it creates to the store and mutates only those:
  whatever the store held before the call is the same after it.
\<close>

lemma unchanged_below_refl: "unchanged_below n h h"
  by (simp add: unchanged_below_def)

lemma unchanged_below_trans:
  "unchanged_below n h h1 \<Longrightarrow> unchanged_below n h1 h2 \<Longrightarrow> unchanged_below n h h2"
  by (simp add: unchanged_below_def)

lemma unchanged_below_nth:
  "unchanged_below n h h' \<Longrightarrow> i < n \<Longrightarrow> h' ! i = h ! i"
  unfolding unchanged_below_def by (metis nth_take)

lemma copy_ref_frame:
  "n \<le> length h \<Longrightarrow> unchanged_below n h (snd (copy_ref a h))"
  by (simp add: copy_ref_def unchanged_below_def split: sum.splits)

lemma copy_ref_Inr:
  "copy_ref a h = (Inr r, h1) \<Longrightarrow> r = length h \<and> length h1 = Suc (length h)"
  by (auto simp: copy_ref_def split: sum.splits)

lemma execute_move_ref_frame:
  "n \<le> a \<Longrightarrow> unchanged_below n h (execute_move_ref a m h)"
  by (simp add: execute_move_ref_def unchanged_below_def)

lemma execute_sequence_ref_frame:
  "n \<le> a \<Longrightarrow> unchanged_below n h (execute_sequence_ref a ms h)"
proof (induction ms arbitrary: h)
  case Nil
  then show ?case by (simp add: execute_sequence_ref_def unchanged_below_def)
next
  case (Cons m ms)
  have "unchanged_below n (execute_move_ref a m h) (execute_sequence_ref a ms (execute_move_ref a m h))"
    using Cons by simp
  then show ?case
    using execute_move_ref_frame [OF Cons.prems, of h m]
    by (simp add: execute_sequence_ref_def unchanged_below_trans)
qed

lemma bfs_moves_frame:
  "n \<le> length h \<Longrightarrow> unchanged_below n h (snd (bfs_moves cur path ms queue h))"
proof (induction ms arbitrary: queue h)
  case Nil
  then show ?case by (simp add: unchanged_below_refl)
next
  case (Cons m ms)
  show ?case
  proof (cases "path \<noteq> [] \<and> are_opposite m (last path)")
    case True
    then show ?thesis using Cons by simp
  next
    case False
    obtain r h1 where c: "copy_ref cur h = (r, h1)" by (cases "copy_ref cur h")
    have f1: "unchanged_below n h h1"
      using copy_ref_frame [OF Cons.prems, of cur] c by simp
    show ?thesis
    proof (cases r)
      case (Inl e)
      then show ?thesis using c f1 by (simp add: False)
    next
      case (Inr next_cube)
      then have nx: "next_cube = length h" and l1: "length h1 = Suc (length h)"
        using copy_ref_Inr c by auto
      define h2 where "h2 = execute_move_ref next_cube m h1"
      have f2: "unchanged_below n h1 h2"
        unfolding h2_def using execute_move_ref_frame Cons.prems nx by simp
      have f02: "unchanged_below n h h2"
        using f1 f2 unchanged_below_trans by blast
      have l2: "n \<le> length h2"
        using f02 Cons.prems by (simp add: unchanged_below_def)
      show ?thesis
      proof (cases "is_solved (h2 ! next_cube)")
        case True
        then show ?thesis using c Inr f02 by (simp add: False h2_def Let_def)
      next
        case ns: False
        have "unchanged_below n h2 (snd (bfs_moves cur path ms (queue @ [(next_cube, path @ [m])]) h2))"
          using Cons.IH [OF l2] .
        then show ?thesis
          using c Inr ns f02 unchanged_below_trans by (simp add: False h2_def [symmetric] Let_def)
      qed
    qed
  qed
qed


lemma bfs_level_frame:
  "n \<le> length h \<Longrightarrow> unchanged_below n h (snd (bfs_level py_hash k queue visited h))"
proof (induction py_hash k queue visited h rule: bfs_level.induct)
  case (1 py_hash queue visited h)
  then show ?case by (simp add: unchanged_below_refl)
next
  case (2 py_hash k visited h)
  then show ?case by (simp add: unchanged_below_refl)
next
  case (3 py_hash k cur path queue visited h)
  show ?case
  proof (cases "quick_hash py_hash (h ! cur) \<in> visited")
    case True
    then show ?thesis using 3 by simp
  next
    case False
    obtain r h1 where b: "bfs_moves cur path bfs_move_set queue h = (r, h1)"
      by (cases "bfs_moves cur path bfs_move_set queue h")
    have f1: "unchanged_below n h h1"
      using bfs_moves_frame [OF "3.prems", of cur path bfs_move_set queue] b by simp
    then have l1: "n \<le> length h1"
      using "3.prems" by (simp add: unchanged_below_def)
    show ?thesis
    proof (cases r)
      case (Raise e)
      then show ?thesis using b f1 by (simp add: False)
    next
      case (Return found)
      then show ?thesis using b f1 by (simp add: False)
    next
      case (Continue qv)
      have "unchanged_below n h1
              (snd (bfs_level py_hash k qv (insert (quick_hash py_hash (h ! cur)) visited) h1))"
        using "3.IH"(2) [OF refl False b [symmetric] Continue l1] .
      then show ?thesis
        using b Continue f1 unchanged_below_trans by (simp add: False)
    qed
  qed
qed


lemma bfs_depth_frame:
  "n \<le> length h \<Longrightarrow> unchanged_below n h (snd (bfs_depth py_hash d queue visited h))"
proof (induction d arbitrary: queue visited h)
  case 0
  then show ?case by (simp add: unchanged_below_refl)
next
  case (Suc d)
  obtain r h1 where b: "bfs_level py_hash (length queue) queue visited h = (r, h1)"
    by (cases "bfs_level py_hash (length queue) queue visited h")
  have f1: "unchanged_below n h h1"
    using bfs_level_frame [OF Suc.prems, of py_hash "length queue" queue visited] b by simp
  then have l1: "n \<le> length h1"
    using Suc.prems by (simp add: unchanged_below_def)
  show ?case
  proof (cases r)
    case (Raise e)
    then show ?thesis using b f1 by simp
  next
    case (Return found)
    then show ?thesis using b f1 by simp
  next
    case (Continue qv)
    obtain q v where qv: "qv = (q, v)" by (cases qv)
    have "unchanged_below n h1 (snd (bfs_depth py_hash d q v h1))"
      using Suc.IH [OF l1] .
    then show ?thesis
      using b Continue qv f1 unchanged_below_trans by simp
  qed
qed

lemma fast_bfs_frame:
  "n \<le> length h \<Longrightarrow> unchanged_below n h (snd (fast_bfs py_hash a h))"
proof -
  assume n: "n \<le> length h"
  obtain r h1 where c: "copy_ref a h = (r, h1)" by (cases "copy_ref a h")
  have f1: "unchanged_below n h h1"
    using copy_ref_frame [OF n, of a] c by simp
  then have l1: "n \<le> length h1"
    using n by (simp add: unchanged_below_def)
  show ?thesis
  proof (cases r)
    case (Inl e)
    then show ?thesis using c f1 by (simp add: fast_bfs_def)
  next
    case (Inr start)
    then show ?thesis
      using c f1 bfs_depth_frame [OF l1, of py_hash 6 "[(start, [])]" "{}"] unchanged_below_trans
      by (simp add: fast_bfs_def)
  qed
qed

lemma rs_candidates_frame:
  "n \<le> length h \<Longrightarrow> unchanged_below n h (snd (rs_candidates cands a h))"
proof (induction cands arbitrary: h)
  case Nil
  then show ?case by (simp add: unchanged_below_refl)
next
  case (Cons moves rest)
  show ?case
  proof (cases "valid_sequence moves")
    case False
    then show ?thesis using Cons by simp
  next
    case True
    define h1 where "h1 = h @ [solved_cube]"
    define h2 where "h2 = execute_sequence_ref (length h) moves h1"
    have f1: "unchanged_below n h h1"
      using Cons.prems by (simp add: h1_def unchanged_below_def)
    have f2: "unchanged_below n h1 h2"
      unfolding h2_def using execute_sequence_ref_frame [OF Cons.prems] .
    have f02: "unchanged_below n h h2"
      using f1 f2 unchanged_below_trans by blast
    then have l2: "n \<le> length h2"
      using Cons.prems by (simp add: unchanged_below_def)
    have "unchanged_below n h2 (snd (rs_candidates rest a h2))"
      using Cons.IH [OF l2] .
    then have "unchanged_below n h (snd (rs_candidates rest a h2))"
      using f02 unchanged_below_trans by blast
    then show ?thesis
      using f02 by (simp add: True new_ref_def Let_def h1_def [symmetric] h2_def [symmetric])
  qed
qed

lemma rs_lengths_frame:
  "n \<le> length h \<Longrightarrow> unchanged_below n h (snd (rs_lengths ns a h))"
proof (induction ns arbitrary: h)
  case Nil
  then show ?case by (simp add: unchanged_below_refl)
next
  case (Cons k ns)
  obtain r h1 where c: "rs_candidates (product_lists (replicate k test_moves)) a h = (r, h1)"
    by (cases "rs_candidates (product_lists (replicate k test_moves)) a h")
  have f1: "unchanged_below n h h1"
    using rs_candidates_frame [OF Cons.prems, of "product_lists (replicate k test_moves)" a] c
    by simp
  then have l1: "n \<le> length h1"
    using Cons.prems by (simp add: unchanged_below_def)
  show ?case
  proof (cases r)
    case None
    then show ?thesis
      using c f1 Cons.IH [OF l1] unchanged_below_trans by simp
  next
    case (Some found)
    then show ?thesis using c f1 by simp
  qed
qed

lemma bf_patterns_frame:
  "n \<le> length h \<Longrightarrow>
   unchanged_below n h (snd (bf_patterns w solution pats best_pattern best_score h))"
proof (induction pats arbitrary: best_pattern best_score h)
  case Nil
  then show ?case by (simp add: unchanged_below_refl)
next
  case (Cons pattern rest)
  obtain r h1 where c: "copy_ref w h = (r, h1)" by (cases "copy_ref w h")
  have f1: "unchanged_below n h h1"
    using copy_ref_frame [OF Cons.prems, of w] c by simp
  show ?case
  proof (cases r)
    case (Inl e)
    then show ?thesis using c f1 by simp
  next
    case (Inr test_cube)
    then have nx: "test_cube = length h"
      using copy_ref_Inr c by auto
    define h2 where "h2 = execute_sequence_ref test_cube pattern h1"
    have f2: "unchanged_below n h1 h2"
      unfolding h2_def using execute_sequence_ref_frame Cons.prems nx by simp
    have f02: "unchanged_below n h h2"
      using f1 f2 unchanged_below_trans by blast
    then have l2: "n \<le> length h2"
      using Cons.prems by (simp add: unchanged_below_def)
    have "unchanged_below n h (snd (bf_patterns w solution rest bp bs h2))" for bp bs
      using Cons.IH [OF l2, of bp bs] f02 unchanged_below_trans by blast
    then show ?thesis
      using c Inr f02 by (simp add: Let_def h2_def [symmetric])
  qed
qed

lemma bf_iterations_frame:
  "n \<le> length h \<Longrightarrow> n \<le> w \<Longrightarrow>
   unchanged_below n h (snd (bf_iterations k iteration w solution h))"
proof (induction k arbitrary: iteration solution h)
  case 0
  then show ?case by (simp add: unchanged_below_refl)
next
  case (Suc k)
  show ?case
  proof (cases "is_solved (h ! w)")
    case True
    then show ?thesis by (simp add: unchanged_below_refl)
  next
    case False
    obtain r h1 where
      b: "bf_patterns w solution patterns None (count_correct_pieces (h ! w)) h = (r, h1)"
      by (cases "bf_patterns w solution patterns None (count_correct_pieces (h ! w)) h")
    have f1: "unchanged_below n h h1"
      using bf_patterns_frame [OF Suc.prems(1), of w solution patterns None "count_correct_pieces (h ! w)"] b by simp
    show ?thesis
    proof (cases r)
      case (Raise e)
      then show ?thesis using b f1 by (simp add: False)
    next
      case (Return found)
      then show ?thesis using b f1 by (simp add: False)
    next
      case (Continue bb)
      obtain best_pattern best_score where bb: "bb = (best_pattern, best_score)" by (cases bb)
      define chosen where "chosen = (if truthy best_pattern then the best_pattern
                          else patterns ! (iteration mod length patterns))"
      define h2 where "h2 = execute_sequence_ref w chosen h1"
      have f2: "unchanged_below n h1 h2"
        unfolding h2_def using execute_sequence_ref_frame [OF Suc.prems(2)] .
      have f02: "unchanged_below n h h2"
        using f1 f2 unchanged_below_trans by blast
      then have l2: "n \<le> length h2"
        using Suc.prems by (simp add: unchanged_below_def)
      have "unchanged_below n h (snd (bf_iterations k it w sol h2))" for it sol
        using Suc.IH [OF l2 Suc.prems(2), of it sol] f02 unchanged_below_trans by blast
      then show ?thesis
        using b Continue bb f02
        by (simp add: False Let_def chosen_def [symmetric] h2_def [symmetric])
    qed
  qed
qed

lemma brute_force_solve_frame:
  "n \<le> length h \<Longrightarrow> unchanged_below n h (snd (brute_force_solve a h))"
proof -
  assume n: "n \<le> length h"
  obtain r h1 where c: "copy_ref a h = (r, h1)" by (cases "copy_ref a h")
  have f1: "unchanged_below n h h1"
    using copy_ref_frame [OF n, of a] c by simp
  then have l1: "n \<le> length h1"
    using n by (simp add: unchanged_below_def)
  show ?thesis
  proof (cases r)
    case (Inl e)
    then show ?thesis using c f1 by (simp add: brute_force_solve_def)
  next
    case (Inr w)
    then have "n \<le> w" using copy_ref_Inr c n by auto
    then show ?thesis
      using c Inr f1 bf_iterations_frame [OF l1, of w 50 0 "[]"] unchanged_below_trans
      by (simp add: brute_force_solve_def)
  qed
qed

lemma solve_frame:
  "n \<le> length h \<Longrightarrow>
   unchanged_below n h (snd (snd (solve py_hash slv a heuristic_type h)))"
proof -
  assume n: "n \<le> length h"
  obtain r1 h1 where b1: "fast_bfs py_hash a h = (r1, h1)" by (cases "fast_bfs py_hash a h")
  have f1: "unchanged_below n h h1"
    using fast_bfs_frame [OF n, of py_hash a] b1 by simp
  then have l1: "n \<le> length h1" using n by (simp add: unchanged_below_def)
  obtain r2 h2 where b2: "reverse_solve a h1 = (r2, h2)" by (cases "reverse_solve a h1")
  have f2: "unchanged_below n h h2"
    using rs_lengths_frame [OF l1, of "[1..<9]" a] b2 f1 unchanged_below_trans
    by (simp add: reverse_solve_def)
  then have l2: "n \<le> length h2" using n by (simp add: unchanged_below_def)
  obtain r3 h3 where b3: "brute_force_solve a h2 = (r3, h3)"
    by (cases "brute_force_solve a h2")
  have f3: "unchanged_below n h h3"
    using brute_force_solve_frame [OF l2, of a] b3 f2 unchanged_below_trans by simp
  show ?thesis
    using b1 b2 b3 f1 f2 f3
    by (auto simp: solve_def unchanged_below_refl split: sum.splits)
qed

lemma solve_solver_unchanged: "fst (snd (solve py_hash slv a heuristic_type h)) = slv"
  by (simp add: solve_def Let_def split: sum.splits prod.splits)

text \<open>
  Claim C10. \<^verbatim>\<open>solve\<close> does not mutate the caller's cube: for every reference \<open>a\<close> into
  the store, any state array at \<open>a\<close> and any heuristic name, recognized or not, the
  cube object at \<open>a\<close> (its state array, its move history and its move count) is the same
  after the call as before, whether the call raises, returns a sequence or returns
  \<^verbatim>\<open>None\<close>; so is every other cube the caller had.
\<close>

theorem solve_leaves_input_cube:
  "a < length h \<Longrightarrow>
   snd (snd (solve py_hash slv a heuristic_type h)) ! a = h ! a
   \<and> state (snd (snd (solve py_hash slv a heuristic_type h)) ! a) = state (h ! a)
   \<and> unchanged_below (length h) h (snd (snd (solve py_hash slv a heuristic_type h)))"
  using solve_frame [of "length h" h py_hash slv a heuristic_type]
    unchanged_below_nth [of "length h" h "snd (snd (solve py_hash slv a heuristic_type h))" a]
  by simp

theorem solve_leaves_input_cube_witness:
  "(0::nat) < length [execute_move solved_cube (U, CW)]
   \<and> length (state (execute_move solved_cube (U, CW))) = 54
   \<and> ''corner_edge'' \<in> set valid_heuristics
   \<and> fst (solve sum_hash stale_solver 0 ''corner_edge'' [execute_move solved_cube (U, CW)])
       = Inr (Some [(U, CCW)])
   \<and> snd (snd (solve sum_hash stale_solver 0 ''corner_edge''
                 [execute_move solved_cube (U, CW)])) ! 0
       = execute_move solved_cube (U, CW)"
proof -
  have l: "(0::nat) < length [execute_move solved_cube (U, CW)]" by simp
  have v: "length (state (execute_move solved_cube (U, CW))) = 54" by code_simp
  have n: "''corner_edge'' \<in> set valid_heuristics" by (simp add: valid_heuristics_def)
  have r: "fst (solve sum_hash stale_solver 0 ''corner_edge''
                  [execute_move solved_cube (U, CW)]) = Inr (Some [(U, CCW)])"
    by code_simp
  from solve_leaves_input_cube [OF l, of sum_hash stale_solver "''corner_edge''"] l v n r
  show ?thesis by simp
qed

section \<open>The entry checks of the solver\<close>

text \<open>
  Claim C6. With a heuristic name outside the recognized ones, \<^verbatim>\<open>solve\<close> raises the
  unknown-heuristic error, whatever the cube (solved or not); the solver object, with
  its statistics, and the store are exactly as before the call: no cube was copied and
  no move was executed.
\<close>

theorem solve_unknown_heuristic:
  "heuristic_type \<notin> set valid_heuristics \<Longrightarrow>
   solve py_hash slv a heuristic_type h = (Inl UnknownHeuristic, slv, h)
   \<and> statistics (fst (snd (solve py_hash slv a heuristic_type h))) = statistics slv"
  by (simp add: solve_def)

theorem solve_unknown_heuristic_witness:
  "''invalid_heuristic'' \<notin> set valid_heuristics
   \<and> solve sum_hash (AStarSolver 25 60) 0 ''invalid_heuristic'' [execute_move solved_cube (U, CW)]
       = (Inl UnknownHeuristic, AStarSolver 25 60, [execute_move solved_cube (U, CW)])
   \<and> statistics (fst (snd (solve sum_hash (AStarSolver 25 60) 0 ''invalid_heuristic''
                             [execute_move solved_cube (U, CW)])))
       = initial_statistics"
proof -
  have n: "''invalid_heuristic'' \<notin> set valid_heuristics"
    by (simp add: valid_heuristics_def)
  from solve_unknown_heuristic [OF n, of sum_hash "AStarSolver 25 60" 0
      "[execute_move solved_cube (U, CW)]"] n
  show ?thesis by (simp add: AStarSolver_def)
qed

text \<open>
  Claim C8. On a solved cube and with a recognized heuristic name, \<^verbatim>\<open>solve\<close> returns
  the empty sequence; the store is exactly as before the call, so no strategy has copied
  a cube, and the cube is still solved.
\<close>

theorem solve_solved_cube:
  "heuristic_type \<in> set valid_heuristics \<Longrightarrow> is_solved (h ! a) \<Longrightarrow>
   solve py_hash slv a heuristic_type h = (Inr (Some []), slv, h)
   \<and> is_solved (snd (snd (solve py_hash slv a heuristic_type h)) ! a)"
  by (simp add: solve_def)

theorem solve_solved_cube_witness:
  "''manhattan'' \<in> set valid_heuristics \<and> is_solved ([solved_cube] ! 0)
   \<and> solve sum_hash (AStarSolver 25 60) 0 ''manhattan'' [solved_cube]
       = (Inr (Some []), AStarSolver 25 60, [solved_cube])
   \<and> is_solved (snd (snd (solve sum_hash (AStarSolver 25 60) 0 ''manhattan'' [solved_cube])) ! 0)"
proof -
  have n: "''manhattan'' \<in> set valid_heuristics" by (simp add: valid_heuristics_def)
  have s: "is_solved ([solved_cube] ! 0)" by (simp add: is_solved_def solved_cube_def)
  from solve_solved_cube [OF n s, of sum_hash "AStarSolver 25 60"] n s
  show ?thesis by simp
qed

text \<open>
  Claim C7, evaluated where it fails. A solver object whose statistics hold the values
  of an earlier use (5 nodes explored, a solution of length 3 found) is given the cube
  obtained from the solved one by the move U. \<^verbatim>\<open>solve\<close> returns the sequence U' and
  the statistics afterwards are the stale ones, none of them at its reset value:
  \<^verbatim>\<open>solve\<close> never calls \<^verbatim>\<open>reset\<close>.
\<close>

theorem solve_keeps_stale_statistics:
  "fst (solve sum_hash stale_solver 0 ''corner_edge'' [execute_move solved_cube (U, CW)])
     = Inr (Some [(U, CCW)])
   \<and> statistics (fst (snd (solve sum_hash stale_solver 0 ''corner_edge''
                             [execute_move solved_cube (U, CW)])))
       = stale_statistics
   \<and> stale_statistics \<noteq> reset stale_statistics
   \<and> nodes_explored stale_statistics = 5 \<and> nodes_explored (reset stale_statistics) = 0"
proof -
  have r: "fst (solve sum_hash stale_solver 0 ''corner_edge''
                  [execute_move solved_cube (U, CW)]) = Inr (Some [(U, CCW)])"
    by code_simp
  have d: "nodes_explored stale_statistics = 5 \<and> nodes_explored (reset stale_statistics) = 0"
    by (simp add: stale_statistics_def reset_def)
  then have "stale_statistics \<noteq> reset stale_statistics"
    by (metis zero_neq_numeral)
  then show ?thesis
    using r d by (simp add: solve_solver_unchanged stale_solver_def)
qed

section \<open>Scrambling\<close>

lemma no_reversal_after_snoc:
  "no_reversal_after l (ms @ [m]) =
     (no_reversal_after l ms \<and> \<not> is_reverse_move m (if ms = [] then l else Some (last ms)))"
  by (induction ms arbitrary: l) auto

lemma valid_moves_nonempty:
  "filter (\<lambda>m. \<not> is_reverse_move m last_move) get_all_moves \<noteq> []"
proof -
  have "\<not> is_reverse_move (U, CW) last_move \<or> \<not> is_reverse_move (D, CW) last_move"
  proof (cases last_move)
    case None
    then show ?thesis by simp
  next
    case (Some m2)
    have "(U, CW) \<noteq> ((D, CW) :: move)" by simp
    then show ?thesis unfolding Some by (metis is_reverse_move.simps(2))
  qed
  moreover have "(U, CW) \<in> set get_all_moves" "(D, CW) \<in> set get_all_moves"
    by (simp_all add: get_all_moves_def)
  ultimately show ?thesis
    by (metis (mono_tags, lifting) filter_empty_conv)
qed

lemma chosen_move_valid:
  assumes "\<forall>g n. 0 < n \<longrightarrow> fst (rng_choice gen g n) < n"
  shows "\<not> is_reverse_move
            (filter (\<lambda>m. \<not> is_reverse_move m last_move) get_all_moves
               ! fst (rng_choice gen g
                   (length (filter (\<lambda>m. \<not> is_reverse_move m last_move) get_all_moves))))
            last_move"
proof -
  let ?vm = "filter (\<lambda>m. \<not> is_reverse_move m last_move) get_all_moves"
  have "0 < length ?vm" using valid_moves_nonempty [of last_move] by simp
  then have "fst (rng_choice gen g (length ?vm)) < length ?vm" using assms by blast
  then have "?vm ! fst (rng_choice gen g (length ?vm)) \<in> set ?vm" by (rule nth_mem)
  then show ?thesis by simp
qed

lemma scramble_loop_properties:
  assumes "\<forall>g n. 0 < n \<longrightarrow> fst (rng_choice gen g n) < n"
  shows "move_history c = hist @ ms \<Longrightarrow> last_move = last_of ms \<Longrightarrow> no_reversal_after None ms \<Longrightarrow>
     (case scramble_loop gen k c ms last_move g of (c', ms', g') \<Rightarrow>
        length ms' = length ms + k \<and> no_reversal_after None ms' \<and> move_history c' = hist @ ms')"
proof (induction k arbitrary: c ms last_move g)
  case 0
  then show ?case by simp
next
  case (Suc k)
  let ?vm = "filter (\<lambda>m. \<not> is_reverse_move m last_move) get_all_moves"
  obtain i g' where ch: "rng_choice gen g (length ?vm) = (i, g')"
    by (cases "rng_choice gen g (length ?vm)")
  have v: "\<not> is_reverse_move (?vm ! i) last_move"
    using chosen_move_valid [OF assms, of last_move g] ch by simp
  have a: "move_history (execute_move c (?vm ! i)) = hist @ (ms @ [?vm ! i])"
    using Suc.prems(1) by (simp add: execute_move_def)
  have b: "Some (?vm ! i) = last_of (ms @ [?vm ! i])"
    by (simp add: last_of_def)
  have n: "no_reversal_after None (ms @ [?vm ! i])"
    using Suc.prems(2,3) v by (simp add: no_reversal_after_snoc last_of_def)
  show ?case
    using Suc.IH [OF a b n, of g'] ch by (simp add: Let_def)
qed

lemma scramble_rejected_seed:
  "seed < 0 \<or> 2 ^ 32 - 1 < seed \<Longrightarrow> scramble gen c num_moves (Some seed) g = Inl InvalidSeed"
  by (simp add: scramble_def)

text \<open>
  Claim C5 as stated fails. With the seed -1, or the seed \<open>2^32\<close>, \<^verbatim>\<open>scramble\<close> raises
  before the first move: there is no move list at all, whatever the move count. And
  with the move count -1 it returns the empty list, which does not have -1 moves.
\<close>

theorem scramble_fails_on_rejected_seed:
  "scramble lcg solved_cube 10 (Some (- 1)) 0 = Inl InvalidSeed
   \<and> scramble lcg solved_cube 10 (Some (2 ^ 32)) 0 = Inl InvalidSeed
   \<and> scramble lcg solved_cube (- 1) (Some 42) 0 = Inr (solved_cube, [], 42)"
  by (simp add: scramble_def lcg_def)

text \<open>
  Claim C5 as amended. For every random source whose choice is a position of the list
  it is given, every integer move count and every seed from 0 to \<open>2^32 - 1\<close>: scrambling
  a new solved cube returns the same cube (state and recorded history), the same move
  list and the same generator state whatever the global generator state was before the
  call, so two new cubes scrambled with the same count and seed agree; the list has
  exactly \<open>num_moves\<close> moves when the count is not negative (none otherwise), is the
  history recorded in the cube, and none of its moves is the reverse of the move just
  before it. With any other seed the call raises before the first move
  (\<open>scramble_rejected_seed\<close>).
\<close>

theorem scramble_deterministic:
  assumes "\<forall>g n. 0 < n \<longrightarrow> fst (rng_choice gen g n) < n"
    and "0 \<le> seed" and "seed \<le> 2 ^ 32 - 1"
  shows "scramble gen solved_cube num_moves (Some seed) g1
           = scramble gen solved_cube num_moves (Some seed) g2
    \<and> (case scramble gen solved_cube num_moves (Some seed) g1 of
          Inl e \<Rightarrow> False
        | Inr (c', scramble_moves, g') \<Rightarrow>
            int (length scramble_moves) = max 0 num_moves
            \<and> no_reversal_after None scramble_moves
            \<and> move_history c' = scramble_moves)"
proof -
  have "case scramble_loop gen (nat num_moves) solved_cube [] None (rng_seed gen seed) of
          (c', ms', g') \<Rightarrow> length ms' = length ([] :: move list) + nat num_moves
              \<and> no_reversal_after None ms' \<and> move_history c' = [] @ ms'"
    by (rule scramble_loop_properties [OF assms(1)]) (simp_all add: solved_cube_def last_of_def)
  then show ?thesis
    using assms(2,3) by (auto simp: scramble_def)
qed

theorem scramble_deterministic_witness:
  "(0::int) \<le> 42 \<and> (42::int) \<le> 2 ^ 32 - 1
   \<and> scramble lcg solved_cube 3 (Some 42) 0 = scramble lcg solved_cube 3 (Some 42) 17
   \<and> scramble lcg solved_cube 3 (Some 42) 0
       = Inr (execute_sequence solved_cube [(L, CW), (D, CCW), (R, Half)],
              [(L, CW), (D, CCW), (R, Half)], 31)
   \<and> no_reversal_after None [(L, CW), (D, CCW), (R, Half)]
   \<and> move_history (execute_sequence solved_cube [(L, CW), (D, CCW), (R, Half)])
       = [(L, CW), (D, CCW), (R, Half)]"
proof -
  have r: "\<forall>g n. 0 < n \<longrightarrow> fst (rng_choice lcg g n) < n" by (simp add: lcg_def)
  have a: "(0::int) \<le> 42" and b: "(42::int) \<le> 2 ^ 32 - 1" by simp_all
  have e: "scramble lcg solved_cube 3 (Some 42) 0
             = Inr (execute_sequence solved_cube [(L, CW), (D, CCW), (R, Half)],
                    [(L, CW), (D, CCW), (R, Half)], 31)"
    by code_simp
  from scramble_deterministic [OF r a b, of 3 0 17] e
  show ?thesis by simp
qed

section \<open>The solver on a cube scrambled by L, F\<close>

text \<open>
  The breadth-first search uses the quarter turns of Up, Right and Front only. None of
  them moves facelet 24, so on a cube whose facelet 24 is not Blue every cube of the
  search is unsolved, the constructor never rejects a copy, and the search ends with
  \<^verbatim>\<open>None\<close>.
\<close>

lemma bfs_move_index_24:
  "list_all (\<lambda>m. length (apply_move (map f [0..<54]) m) = 54
                 \<and> apply_move (map f [0..<54]) m ! 24 = (f :: nat \<Rightarrow> int) 24) bfs_move_set"
  by code_simp

lemma bfs_move_keeps_24:
  fixes s :: state
  assumes "m \<in> set bfs_move_set" and "length s = 54"
  shows "length (apply_move s m) = 54 \<and> apply_move s m ! 24 = s ! 24"
proof -
  have "map ((!) s) [0..<54] = s"
    using assms(2) map_nth [of s] by simp
  then show ?thesis
    using bfs_move_index_24 [of "(!) s"] assms(1) by (auto simp: list_all_iff)
qed

lemma blocked_not_solved: "blocked c \<Longrightarrow> \<not> is_solved c"
proof -
  have "create_solved_state ! 24 = 2" by code_simp
  then show "blocked c \<Longrightarrow> \<not> is_solved c"
    by (auto simp: blocked_def is_solved_def)
qed

lemma blocked_copy: "blocked c \<Longrightarrow> \<exists>c'. copy c = Inr c' \<and> state c' = state c"
  by (simp add: blocked_def copy_def RubikCube_def)

lemma blocked_execute_move:
  "blocked c \<Longrightarrow> m \<in> set bfs_move_set \<Longrightarrow> blocked (execute_move c m)"
  using bfs_move_keeps_24 [of m "state c"] by (simp add: blocked_def execute_move_def)

lemma bfs_moves_blocked:
  "cur < length h \<Longrightarrow> blocked (h ! cur) \<Longrightarrow> queue_blocked queue h \<Longrightarrow>
   set ms \<subseteq> set bfs_move_set \<Longrightarrow>
   \<exists>queue1 h1. bfs_moves cur path ms queue h = (Continue queue1, h1) \<and> queue_blocked queue1 h1"
proof (induction ms arbitrary: queue h)
  case Nil
  then show ?case by simp
next
  case (Cons m ms)
  have ms: "set ms \<subseteq> set bfs_move_set" and m: "m \<in> set bfs_move_set"
    using Cons.prems(4) by auto
  show ?case
  proof (cases "path \<noteq> [] \<and> are_opposite m (last path)")
    case True
    then show ?thesis
      using Cons.IH [OF Cons.prems(1,2,3) ms] by simp
  next
    case False
    obtain c' where c': "copy (h ! cur) = Inr c'" "state c' = state (h ! cur)"
      using blocked_copy [OF Cons.prems(2)] by blast
    have bc: "blocked c'"
      using Cons.prems(2) c'(2) by (simp add: blocked_def)
    define h2 where "h2 = execute_move_ref (length h) m (h @ [c'])"
    have h2: "h2 = h @ [execute_move c' m]"
      by (simp add: h2_def execute_move_ref_def)
    have nb: "blocked (h2 ! length h)"
      using blocked_execute_move [OF bc m] by (simp add: h2)
    have a: "cur < length h2" using Cons.prems(1) by (simp add: h2)
    have b: "blocked (h2 ! cur)" using Cons.prems(1,2) by (simp add: h2 nth_append)
    have q: "queue_blocked (queue @ [(length h, path @ [m])]) h2"
      using Cons.prems(3) nb unfolding queue_blocked_def
      by (auto simp: h2 nth_append)
    obtain queue1 h1 where
      r: "bfs_moves cur path ms (queue @ [(length h, path @ [m])]) h2 = (Continue queue1, h1)"
         "queue_blocked queue1 h1"
      using Cons.IH [OF a b q ms] by blast
    have "bfs_moves cur path (m # ms) queue h = (Continue queue1, h1)"
      using r(1) c'(1) blocked_not_solved [OF nb]
      by (simp add: False copy_ref_def Let_def h2_def [symmetric])
    then show ?thesis using r(2) by blast
  qed
qed

lemma bfs_level_blocked:
  "queue_blocked queue h \<Longrightarrow>
   \<exists>queue1 visited1 h1.
     bfs_level py_hash k queue visited h = (Continue (queue1, visited1), h1)
     \<and> queue_blocked queue1 h1"
proof (induction py_hash k queue visited h rule: bfs_level.induct)
  case (1 py_hash queue visited h)
  then show ?case by simp
next
  case (2 py_hash k visited h)
  then show ?case by simp
next
  case (3 py_hash k cur path queue visited h)
  have cur: "cur < length h" "blocked (h ! cur)" and q: "queue_blocked queue h"
    using "3.prems" by (auto simp: queue_blocked_def)
  show ?case
  proof (cases "quick_hash py_hash (h ! cur) \<in> visited")
    case True
    then show ?thesis using "3.IH"(1) [OF refl True q] by simp
  next
    case False
    obtain queue1 h1 where
      b: "bfs_moves cur path bfs_move_set queue h = (Continue queue1, h1)"
         "queue_blocked queue1 h1"
      using bfs_moves_blocked [OF cur q subset_refl] by blast
    show ?thesis
      using "3.IH"(2) [OF refl False b(1) [symmetric] refl b(2)] b(1)
      by (simp add: False)
  qed
qed

lemma bfs_depth_blocked:
  "queue_blocked queue h \<Longrightarrow> fst (bfs_depth py_hash d queue visited h) = Inr None"
proof (induction d arbitrary: queue visited h)
  case 0
  then show ?case by simp
next
  case (Suc d)
  obtain queue1 visited1 h1 where
    b: "bfs_level py_hash (length queue) queue visited h = (Continue (queue1, visited1), h1)"
       "queue_blocked queue1 h1"
    using bfs_level_blocked [OF Suc.prems] by blast
  show ?case
    using Suc.IH [OF b(2)] b(1) by simp
qed

lemma fast_bfs_blocked:
  assumes "a < length h" and "blocked (h ! a)"
  shows "fst (fast_bfs py_hash a h) = Inr None"
proof -
  obtain c' where c': "copy (h ! a) = Inr c'" "state c' = state (h ! a)"
    using blocked_copy [OF assms(2)] by blast
  have "queue_blocked [(length h, [])] (h @ [c'])"
    using assms(2) c'(2) by (simp add: queue_blocked_def blocked_def)
  then show ?thesis
    using bfs_depth_blocked [of "[(length h, [])]" "h @ [c']" py_hash 6 "{}"] c'(1)
    by (simp add: fast_bfs_def copy_ref_def)
qed


lemma execute_sequence_ref_nth:
  "a < length h \<Longrightarrow> execute_sequence_ref a ms h = h[a := execute_sequence (h ! a) ms]"
proof (induction ms arbitrary: h)
  case Nil
  then show ?case by (simp add: execute_sequence_ref_def execute_sequence_def)
next
  case (Cons m ms)
  have "execute_sequence_ref a (m # ms) h = execute_sequence_ref a ms (execute_move_ref a m h)"
    by (simp add: execute_sequence_ref_def)
  also have "\<dots> = (execute_move_ref a m h)[a := execute_sequence (execute_move_ref a m h ! a) ms]"
    using Cons.IH [of "execute_move_ref a m h"] Cons.prems by (simp add: execute_move_ref_def)
  finally show ?case
    using Cons.prems by (simp add: execute_move_ref_def execute_sequence_def)
qed

text \<open>What the scan of one candidate list returns: the inverse of the first match.\<close>

lemma rs_candidates_result:
  "a < length h \<Longrightarrow>
   fst (rs_candidates cands a h)
     = map_option invert_sequence
         (find (\<lambda>moves. valid_sequence moves
                  \<and> state (execute_sequence solved_cube moves) = state (h ! a)) cands)"
proof (induction cands arbitrary: h)
  case Nil
  then show ?case by simp
next
  case (Cons moves rest)
  show ?case
  proof (cases "valid_sequence moves")
    case False
    then show ?thesis using Cons by simp
  next
    case True
    define h2 where "h2 = execute_sequence_ref (length h) moves (h @ [solved_cube])"
    have h2: "h2 = h @ [execute_sequence solved_cube moves]"
      by (simp add: h2_def execute_sequence_ref_nth)
    have a2: "a < length h2" "h2 ! a = h ! a"
      using Cons.prems by (simp_all add: h2 nth_append)
    have t: "h2 ! length h = execute_sequence solved_cube moves"
      by (simp add: h2)
    show ?thesis
      using Cons.IH [OF a2(1)] a2(2) t
      by (simp add: True new_ref_def Let_def h2_def [symmetric] states_equal_def)
  qed
qed

lemma rs_candidates_keeps:
  "a < length h \<Longrightarrow>
   a < length (snd (rs_candidates cands a h)) \<and> snd (rs_candidates cands a h) ! a = h ! a"
  using rs_candidates_frame [of "length h" h cands a]
    unchanged_below_nth [of "length h" h "snd (rs_candidates cands a h)" a]
  by (simp add: unchanged_below_def)

lemma scan_length_1:
  "find (\<lambda>moves. valid_sequence moves
           \<and> state (execute_sequence solved_cube moves) = state lf_cube)
      (product_lists (replicate 1 test_moves)) = None"
  by code_simp

lemma scan_length_2:
  "find (\<lambda>moves. valid_sequence moves
           \<and> state (execute_sequence solved_cube moves) = state lf_cube)
      (product_lists (replicate 2 test_moves)) = Some [(L, CW), (F, CW)]"
  by code_simp


lemma lengths_1_to_8: "[1..<9] = [1, 2, 3, 4, 5, 6, 7, 8 :: nat]"
  by code_simp

lemma reverse_solve_lf_cube:
  assumes "a < length h" and "state (h ! a) = state lf_cube"
  shows "fst (reverse_solve a h) = Some [(F, CCW), (L, CCW)]"
proof -
  obtain r1 h1 where c1: "rs_candidates (product_lists (replicate 1 test_moves)) a h = (r1, h1)"
    by (cases "rs_candidates (product_lists (replicate 1 test_moves)) a h")
  have r1: "r1 = None"
    using rs_candidates_result [OF assms(1), of "product_lists (replicate 1 test_moves)"]
      c1 assms(2) scan_length_1 by simp
  have k1: "a < length h1" "h1 ! a = h ! a"
    using rs_candidates_keeps [OF assms(1), of "product_lists (replicate 1 test_moves)"] c1
    by simp_all
  obtain r2 h2 where c2: "rs_candidates (product_lists (replicate 2 test_moves)) a h1 = (r2, h2)"
    by (cases "rs_candidates (product_lists (replicate 2 test_moves)) a h1")
  have r2: "r2 = Some (invert_sequence [(L, CW), (F, CW)])"
    using rs_candidates_result [OF k1(1), of "product_lists (replicate 2 test_moves)"]
      c2 k1(2) assms(2) scan_length_2 by simp
  have "rs_lengths [1, 2, 3, 4, 5, 6, 7, 8] a h = (Some (invert_sequence [(L, CW), (F, CW)]), h2)"
    by (simp only: rs_lengths.simps c1 r1 c2 r2 prod.case option.case)
  then have "fst (reverse_solve a h) = Some (invert_sequence [(L, CW), (F, CW)])"
    by (simp only: reverse_solve_def lengths_1_to_8 fst_conv)
  then show ?thesis
    by (simp add: invert_sequence_def)
qed

lemma lf_cube_blocked: "blocked lf_cube"
  by code_simp

text \<open>
  Claim C1, evaluated where it fails. The cube scrambled from the solved one by L, F
  has a valid state of 54 labels. For every hash function and solver object, \<^verbatim>\<open>solve\<close>
  with the heuristic name \<^verbatim>\<open>corner_edge\<close> returns the sequence F', L' (the
  breadth-first search finds nothing, the reverse-scramble enumeration matches L, F and
  returns its inverse), and executing F', L' on the input cube does not solve it.
\<close>

theorem solve_returns_non_solving_sequence:
  "RubikCube (Some (state lf_cube)) = Inr \<lparr>state = state lf_cube, move_history = [], move_count = 0\<rparr>
   \<and> ''corner_edge'' \<in> set valid_heuristics
   \<and> fst (solve py_hash slv 0 ''corner_edge'' [lf_cube]) = Inr (Some [(F, CCW), (L, CCW)])
   \<and> \<not> is_solved (execute_sequence lf_cube [(F, CCW), (L, CCW)])"
proof -
  have v: "RubikCube (Some (state lf_cube))
             = Inr \<lparr>state = state lf_cube, move_history = [], move_count = 0\<rparr>"
    using lf_cube_blocked by (simp add: RubikCube_def blocked_def)
  have n: "''corner_edge'' \<in> set valid_heuristics"
    by (simp add: valid_heuristics_def)
  have u: "\<not> is_solved ([lf_cube] ! 0)"
    using blocked_not_solved [OF lf_cube_blocked] by simp
  obtain r1 h1 where b: "fast_bfs py_hash 0 [lf_cube] = (r1, h1)"
    by (cases "fast_bfs py_hash 0 [lf_cube]")
  have r1: "r1 = Inr None"
    using fast_bfs_blocked [of 0 "[lf_cube]" py_hash] lf_cube_blocked b by simp
  have fr: "unchanged_below 1 [lf_cube] h1"
    using fast_bfs_frame [of 1 "[lf_cube]" py_hash 0] b by simp
  have k: "0 < length h1" "h1 ! 0 = lf_cube"
  proof -
    show "0 < length h1"
      using fr unfolding unchanged_below_def by (cases h1) simp_all
    show "h1 ! 0 = lf_cube"
      using unchanged_below_nth [OF fr, of 0] by simp
  qed
  obtain r2 h2 where c: "reverse_solve 0 h1 = (r2, h2)"
    by (cases "reverse_solve 0 h1")
  have r2: "r2 = Some [(F, CCW), (L, CCW)]"
    using reverse_solve_lf_cube [OF k(1)] k(2) c by simp
  have s: "fst (solve py_hash slv 0 ''corner_edge'' [lf_cube]) = Inr (Some [(F, CCW), (L, CCW)])"
    using n u b r1 c r2 by (simp add: solve_def)
  have f: "\<not> is_solved (execute_sequence lf_cube [(F, CCW), (L, CCW)])"
    by code_simp
  show ?thesis using v n s f by simp
qed

end
